theory Spec2Isabelle
  imports Complex_Main
begin

section \<open>A request orchestration client: data model\<close>

text \<open>
  This theory embeds \<^verbatim>\<open>src/src/crazy.ts\<close>: the backoff computation, the composition of
  abort signals, the retry loop and the HTTP client returned by \<^verbatim>\<open>createHttpClient\<close>
  (admission counter, wait queue, per-key registry, request lifecycle).

  JavaScript runs the client on one event loop. A handler runs to completion, then the
  promise reactions it queued run, and only then the next timer or transport completion
  is handled. The embedding therefore is a deterministic step function on the client
  state: one step per completion the environment delivers (a call of \<^verbatim>\<open>request\<close>, a
  transport response, a transport failure, the end of body parsing, the end of a backoff
  sleep, a timer, a call of \<^verbatim>\<open>cancel\<close>), each step running the source code of that
  handler together with the promise reactions it triggers. The environment is free: a
  property of all reachable states holds for every order of events and for every answer
  of the transport and the parser.

  Numbers are IEEE doubles in the source. The delays are modelled over the reals
  (\<^verbatim>\<open>Math.round\<close> is \<^term>\<open>round\<close>: both are \<open>\<lfloor>x + 1/2\<rfloor>\<close>), counters and statuses over
  the integers.
\<close>

type_synonym cid = nat \<comment> \<open>a call of \<^verbatim>\<open>request\<close>: its closure and its promise\<close>
type_synonym sid = nat \<comment> \<open>an \<^verbatim>\<open>AbortController\<close> with its signal\<close>
type_synonym val = string \<comment> \<open>a parsed response body\<close>

datatype QueueStrategy = Fifo | Lifo | Drop

text \<open>The reasons the source aborts with; \<open>DefaultReason\<close> is the \<^verbatim>\<open>DOMException\<close> that
  \<^verbatim>\<open>abort()\<close> without an argument creates. Every one of them has the name \<^verbatim>\<open>AbortError\<close>.\<close>

datatype reason = Timeout | Cancelled | Replaced | DefaultReason | UserReason string

record Response =
  status :: int
  statusText :: string

definition ok :: "Response \<Rightarrow> bool" where
  "ok res = (200 \<le> status res \<and> status res \<le> 299)"

text \<open>Everything a promise of the client can reject with.\<close>

datatype error =
    HttpError Response \<comment> \<open>\<^verbatim>\<open>new Error(`HTTP ...`)\<close> with \<^verbatim>\<open>.response\<close> attached\<close>
  | NetworkError string \<comment> \<open>the transport rejects before a response exists\<close>
  | AbortError reason \<comment> \<open>the transport or the body read rejects with the signal's reason\<close>
  | ParseError string \<comment> \<open>the parser's promise rejects\<close>
  | DroppedError \<comment> \<open>\<^verbatim>\<open>new Error("Request dropped due to maxInFlight limit")\<close>\<close>
  | NullDeref \<comment> \<open>\<^verbatim>\<open>TypeError\<close>: reading \<^verbatim>\<open>attempts\<close> of \<^verbatim>\<open>undefined\<close>\<close>
  | UndefinedThrown \<comment> \<open>\<^verbatim>\<open>throw errLast\<close> while \<^verbatim>\<open>errLast\<close> is still \<^verbatim>\<open>undefined\<close>\<close>

text \<open>\<^verbatim>\<open>(err as any)?.name === "AbortError"\<close>\<close>

fun isAbort :: "error \<Rightarrow> bool" where
  "isAbort (AbortError r) = True"
| "isAbort e = False"

record RetryPolicy =
  attempts :: int
  backoffBaseMs :: "real option"
  backoffFactor :: "real option"
  jitterRatio :: "real option"
  retryOn :: "(Response option \<Rightarrow> error option \<Rightarrow> bool) option"

section \<open>Backoff delay\<close>

text \<open>\<^verbatim>\<open>calcBackoffDelay\<close>. The third argument is the value \<^verbatim>\<open>Math.random()\<close> returns, a
  number in \<open>[0, 1)\<close>.\<close>

definition base :: "RetryPolicy \<Rightarrow> real" where
  "base p = (case backoffBaseMs p of None \<Rightarrow> 150 | Some b \<Rightarrow> b)"

definition factor :: "RetryPolicy \<Rightarrow> real" where
  "factor p = (case backoffFactor p of None \<Rightarrow> 2 | Some f \<Rightarrow> f)"

definition jitter :: "RetryPolicy \<Rightarrow> real" where
  "jitter p = (case jitterRatio p of None \<Rightarrow> 2 / 10 | Some j \<Rightarrow> j)"

definition calcBackoffDelay :: "int \<Rightarrow> RetryPolicy \<Rightarrow> real \<Rightarrow> int" where
  "calcBackoffDelay attemptIndex p rnd =
     (let raw = base p * factor p ^ nat (max 0 attemptIndex);
          jitterAmt = raw * jitter p * (rnd * 2 - 1)
      in max 0 (round (raw + jitterAmt)))"

section \<open>Abort signals\<close>

text \<open>
  The controllers live in a store indexed by \<^typ>\<open>sid\<close>. A listener is one of the two
  closures the source registers: \<^verbatim>\<open>() => controller.abort()\<close> and
  \<^verbatim>\<open>() => keyController.abort(outerController.signal.reason)\<close>. The same datatype
  describes a pending call of \<^verbatim>\<open>abort\<close>.
\<close>

datatype action =
    Abort sid "reason option" \<comment> \<open>\<^verbatim>\<open>controller.abort(r)\<close>, \<open>None\<close> for no argument\<close>
  | AbortWithReasonOf sid sid \<comment> \<open>\<^verbatim>\<open>controller.abort(source.signal.reason)\<close>\<close>

record signal =
  aborted :: bool
  sigReason :: "reason option"
  listeners :: "action list"

definition freshSignal :: signal where
  "freshSignal = \<lparr>aborted = False, sigReason = None, listeners = []\<rparr>"

definition unfired :: "signal list \<Rightarrow> nat" where
  "unfired S = length (filter (\<lambda>g. \<not> aborted g) S)"

fun target :: "action \<Rightarrow> sid" where
  "target (Abort t r) = t"
| "target (AbortWithReasonOf t src) = t"

text \<open>The argument of \<^verbatim>\<open>abort\<close>, read when the call is made; an absent argument (or the
  reason of a signal that has not fired) becomes the default \<^verbatim>\<open>DOMException\<close>.\<close>

fun givenReason :: "signal list \<Rightarrow> action \<Rightarrow> reason" where
  "givenReason S (Abort t r) = (case r of None \<Rightarrow> DefaultReason | Some x \<Rightarrow> x)"
| "givenReason S (AbortWithReasonOf t src) =
     (if src < length S then (case sigReason (S ! src) of None \<Rightarrow> DefaultReason | Some x \<Rightarrow> x)
      else DefaultReason)"

text \<open>
  \<^verbatim>\<open>AbortController.abort\<close>: nothing happens on a signal that has fired; otherwise the
  signal fires with the reason and its listeners run, in registration order, each once
  (\<^verbatim>\<open>{ once: true }\<close>), before \<^verbatim>\<open>abort\<close> returns. The listeners are calls of \<^verbatim>\<open>abort\<close>
  themselves, so the pending calls form a stack.
\<close>

function runActions :: "action list \<Rightarrow> signal list \<Rightarrow> signal list" where
  "runActions [] S = S"
| "runActions (a # as) S =
     (if target a < length S \<and> \<not> aborted (S ! target a)
      then runActions (listeners (S ! target a) @ as)
             (S[target a := \<lparr>aborted = True, sigReason = Some (givenReason S a), listeners = []\<rparr>])
      else runActions as S)"
  by pat_completeness auto

lemma unfired_fire:
  "t < length S \<Longrightarrow> \<not> aborted (S ! t) \<Longrightarrow> aborted g \<Longrightarrow> unfired (S[t := g]) < unfired S"
proof (induction S arbitrary: t)
  case Nil
  then show ?case by simp
next
  case (Cons x xs)
  show ?case
  proof (cases t)
    case 0
    with Cons.prems show ?thesis by (simp add: unfired_def)
  next
    case (Suc n)
    with Cons.prems have "unfired (xs[n := g]) < unfired xs"
      by (intro Cons.IH) simp_all
    with Suc show ?thesis by (simp add: unfired_def)
  qed
qed

termination runActions
proof (relation "measures [\<lambda>(as, S). unfired S, \<lambda>(as, S). length as]")
  show "wf (measures [\<lambda>(as, S). unfired S, \<lambda>(as, S). length as])" by simp
next
  fix a :: action and as :: "action list" and S :: "signal list"
  assume "target a < length S \<and> \<not> aborted (S ! target a)"
  then show "((listeners (S ! target a) @ as,
               S[target a := \<lparr>aborted = True, sigReason = Some (givenReason S a), listeners = []\<rparr>]),
              a # as, S) \<in> measures [\<lambda>(as, S). unfired S, \<lambda>(as, S). length as]"
    by (simp add: unfired_fire)
next
  fix a :: action and as :: "action list" and S :: "signal list"
  show "((as, S), a # as, S) \<in> measures [\<lambda>(as, S). unfired S, \<lambda>(as, S). length as]"
    by simp
qed

text \<open>\<^verbatim>\<open>addEventListener("abort", f, { once: true })\<close>: registering the same closure twice on
  one signal registers it once.\<close>

definition addListener :: "sid \<Rightarrow> action \<Rightarrow> signal list \<Rightarrow> signal list" where
  "addListener s a S =
     (if s < length S \<and> a \<notin> set (listeners (S ! s))
      then S[s := (S ! s)\<lparr>listeners := listeners (S ! s) @ [a]\<rparr>] else S)"

text \<open>The loop of \<^verbatim>\<open>combineSignals\<close> over the inputs, \<open>c\<close> being the new controller.\<close>

fun combineLoop :: "sid \<Rightarrow> sid option list \<Rightarrow> signal list \<Rightarrow> signal list" where
  "combineLoop c [] S = S"
| "combineLoop c (None # ss) S = combineLoop c ss S"
| "combineLoop c (Some s # ss) S =
     (if s < length S \<and> aborted (S ! s) then runActions [Abort c None] S
      else combineLoop c ss (addListener s (Abort c None) S))"

text \<open>\<^verbatim>\<open>combineSignals\<close> returns the store and the new controller.\<close>

definition combineSignals :: "sid option list \<Rightarrow> signal list \<Rightarrow> signal list \<times> sid" where
  "combineSignals signals S = (combineLoop (length S) signals (S @ [freshSignal]), length S)"

section \<open>The client\<close>

record RequestOptions =
  signal :: "sid option"
  timeoutMs :: "int option"
  key :: "string option"
  lastOneWins :: bool
  dedupe :: bool
  retry :: "RetryPolicy option"

text \<open>The parser and the hooks of the configuration are left out of the record: the result
  of parsing comes with the event that ends it, and every hook call is written to the
  trace of the client.\<close>

record ClientConfig =
  maxInFlight :: "int option"
  queueStrategy :: "QueueStrategy option"
  defaultTimeoutMs :: "int option"
  defaultRetry :: "RetryPolicy option" \<comment> \<open>\<^verbatim>\<open>config.retry\<close>\<close>

text \<open>\<^verbatim>\<open>const maxInFlight = Math.max(0, config.maxInFlight ?? 0)\<close> and
  \<^verbatim>\<open>const strategy = config.queueStrategy ?? "fifo"\<close>\<close>

definition capacity :: "ClientConfig \<Rightarrow> int" where
  "capacity cfg = max 0 (case maxInFlight cfg of None \<Rightarrow> 0 | Some m \<Rightarrow> m)"

definition strategy :: "ClientConfig \<Rightarrow> QueueStrategy" where
  "strategy cfg = (case queueStrategy cfg of None \<Rightarrow> Fifo | Some q \<Rightarrow> q)"

datatype outcome = Resolved val | Rejected error

record KeyRecord =
  controller :: sid
  resultPromise :: cid
  startedAt :: int

text \<open>The variables one call of \<^verbatim>\<open>request\<close> closes over.\<close>

record Call =
  input :: string
  options :: RequestOptions
  timeoutController :: sid
  outerController :: sid

text \<open>Where a call stands. \<open>Fetching i t\<close>: attempt \<open>i\<close> of \<^verbatim>\<open>runWithRetry\<close> awaits the
  transport, \<^verbatim>\<open>doFetch\<close> having started at time \<open>t\<close>. \<open>Parsing i\<close>: it awaits the parser.
  \<open>Sleeping i e\<close>: it awaits \<^verbatim>\<open>sleep\<close> after attempt \<open>i\<close> failed with \<open>e\<close>. \<open>Settling out\<close>:
  the promise of \<^verbatim>\<open>runWithRetry\<close> is settled and its reactions have not run yet.
  \<open>Following l\<close>: the call waits on the result promise of call \<open>l\<close>.\<close>

datatype phase =
    Unborn | Created | Queued | Dropped
  | Fetching nat int | Parsing nat | Sleeping nat error | Settling outcome
  | Following cid
  | Finished

text \<open>The trace: the hook calls (with the call they belong to), the transport calls, the
  sleeps and the entries into \<^verbatim>\<open>task.run\<close>.\<close>

datatype entry =
    OnEnqueue cid "string option"
  | OnStart cid "string option" string
  | OnFinish cid "string option" string bool int int
  | OnDrop cid "string option"
  | OnError cid error "string option"
  | Transport cid sid
  | Slept cid int
  | Ran cid

record Client =
  inFlight :: int
  queue :: "cid list"
  inFlightByKey :: "string \<rightharpoonup> KeyRecord"
  ncalls :: nat
  call :: "cid \<Rightarrow> Call"
  phase :: "cid \<Rightarrow> phase"
  promise :: "cid \<Rightarrow> outcome option"
  reactions :: "cid \<Rightarrow> cid list" \<comment> \<open>the followers subscribed to a pending promise\<close>
  timeoutId :: "cid \<Rightarrow> bool" \<comment> \<open>the timer of the call is armed\<close>
  effective :: "cid \<Rightarrow> sid" \<comment> \<open>\<^verbatim>\<open>effectiveController\<close>, once the call runs\<close>
  signals :: "signal list"
  userSignals :: "sid list" \<comment> \<open>controllers the caller made\<close>
  now :: int \<comment> \<open>\<^verbatim>\<open>performance.now()\<close>\<close>
  entropy :: "nat \<Rightarrow> real" \<comment> \<open>the values \<^verbatim>\<open>Math.random()\<close> will return\<close>
  drawn :: nat
  trace :: "entry list"

definition noCall :: Call where
  "noCall = \<lparr>input = [], options = \<lparr>signal = None, timeoutMs = None, key = None,
     lastOneWins = False, dedupe = False, retry = None\<rparr>, timeoutController = 0, outerController = 0\<rparr>"

definition init :: "(nat \<Rightarrow> real) \<Rightarrow> Client" where
  "init rnd = \<lparr>inFlight = 0, queue = [], inFlightByKey = Map.empty, ncalls = 0,
     call = (\<lambda>c. noCall), phase = (\<lambda>c. Unborn), promise = (\<lambda>c. None), reactions = (\<lambda>c. []),
     timeoutId = (\<lambda>c. False), effective = (\<lambda>c. 0), signals = [], userSignals = [], now = 0,
     entropy = rnd, drawn = 0, trace = []\<rparr>"

definition logEntry :: "entry \<Rightarrow> Client \<Rightarrow> Client" where
  "logEntry e s = s\<lparr>trace := trace s @ [e]\<rparr>"

definition keyOf :: "Client \<Rightarrow> cid \<Rightarrow> string option" where
  "keyOf s c = key (options (call s c))"

text \<open>The key when \<^verbatim>\<open>if (key)\<close> holds: a string that is not empty.\<close>

definition keyed :: "Client \<Rightarrow> cid \<Rightarrow> string option" where
  "keyed s c = (case keyOf s c of None \<Rightarrow> None | Some k \<Rightarrow> if k = [] then None else Some k)"

text \<open>\<^verbatim>\<open>resolveOuter\<close> and \<^verbatim>\<open>rejectOuter\<close>: a settled promise stays as it is.\<close>

definition settlePromise :: "cid \<Rightarrow> outcome \<Rightarrow> Client \<Rightarrow> Client" where
  "settlePromise c out s =
     (if promise s c = None then s\<lparr>promise := (promise s)(c := Some out)\<rparr> else s)"

subsection \<open>The retry loop and one attempt\<close>

text \<open>\<^verbatim>\<open>options.retry ?? config.retry\<close>, which \<^verbatim>\<open>runWithRetry\<close> binds to \<^verbatim>\<open>p\<close>.\<close>

definition policyOf :: "ClientConfig \<Rightarrow> Client \<Rightarrow> cid \<Rightarrow> RetryPolicy option" where
  "policyOf cfg s c =
     (case retry (options (call s c)) of None \<Rightarrow> defaultRetry cfg | Some p \<Rightarrow> Some p)"

text \<open>The default of \<^verbatim>\<open>shouldRetry\<close>; an absent error stands for a falsy one.\<close>

fun defaultRetryOn :: "Response option \<Rightarrow> error option \<Rightarrow> bool" where
  "defaultRetryOn res (Some e) = True"
| "defaultRetryOn None None = True"
| "defaultRetryOn (Some r) None = (status r \<in> {502, 503, 504})"

definition shouldRetry :: "RetryPolicy \<Rightarrow> Response option \<Rightarrow> error option \<Rightarrow> bool" where
  "shouldRetry p = (case retryOn p of None \<Rightarrow> defaultRetryOn | Some f \<Rightarrow> f)"

text \<open>\<^verbatim>\<open>doFetch\<close> up to \<^verbatim>\<open>await fetch(...)\<close>.\<close>

definition doFetch :: "cid \<Rightarrow> nat \<Rightarrow> Client \<Rightarrow> Client" where
  "doFetch c i s =
     (let s1 = logEntry (OnStart c (keyOf s c) (input (call s c))) s;
          s2 = logEntry (Transport c (effective s c)) s1
      in s2\<lparr>phase := (phase s2)(c := Fetching i (now s))\<rparr>)"

text \<open>The head of the \<^verbatim>\<open>for\<close> loop at index \<open>i\<close>: another attempt, or the
  \<^verbatim>\<open>throw errLast\<close> behind the loop.\<close>

definition loopHead :: "ClientConfig \<Rightarrow> cid \<Rightarrow> nat \<Rightarrow> error option \<Rightarrow> Client \<Rightarrow> Client + outcome" where
  "loopHead cfg c i errLast s =
     (if int i < (case policyOf cfg s c of None \<Rightarrow> 1 | Some p \<Rightarrow> attempts p)
      then Inl (doFetch c i s)
      else Inr (Rejected (case errLast of None \<Rightarrow> UndefinedThrown | Some e \<Rightarrow> e)))"

subsection \<open>Admission and the lifecycle of a call\<close>

text \<open>\<^verbatim>\<open>if (key && options.lastOneWins) { ... }\<close>\<close>

definition supersede :: "cid \<Rightarrow> Client \<Rightarrow> Client" where
  "supersede c s =
     (case keyed s c of
        None \<Rightarrow> s
      | Some k \<Rightarrow>
          if lastOneWins (options (call s c)) then
            (case inFlightByKey s k of
               None \<Rightarrow> s
             | Some prev \<Rightarrow>
                 s\<lparr>signals := runActions [Abort (controller prev) (Some Replaced)] (signals s),
                   inFlightByKey := (inFlightByKey s)(k := None)\<rparr>)
          else s)"

text \<open>\<^verbatim>\<open>if (key && options.dedupe) { const active = inFlightByKey.get(key); ... }\<close>\<close>

definition dedupeTarget :: "cid \<Rightarrow> Client \<Rightarrow> KeyRecord option" where
  "dedupeTarget c s =
     (case keyed s c of
        None \<Rightarrow> None
      | Some k \<Rightarrow> if dedupe (options (call s c)) then inFlightByKey s k else None)"

text \<open>Subscribing to \<^verbatim>\<open>active.resultPromise\<close>. The registry only holds calls whose
  promise is pending (part of the invariant below), so the reactions wait.\<close>

definition follow :: "cid \<Rightarrow> KeyRecord \<Rightarrow> Client \<Rightarrow> Client" where
  "follow c active s =
     s\<lparr>reactions := (reactions s)(resultPromise active := reactions s (resultPromise active) @ [c]),
       phase := (phase s)(c := Following (resultPromise active))\<rparr>"

text \<open>The rest of \<^verbatim>\<open>run\<close>: the key controller, the effective controller, the call of
  \<^verbatim>\<open>runWithRetry\<close> up to its first \<^verbatim>\<open>await\<close>, and the record of the key.\<close>

definition launch :: "ClientConfig \<Rightarrow> cid \<Rightarrow> Client \<Rightarrow> Client" where
  "launch cfg c s =
     (let outer = outerController (call s c);
          s1 = (case keyed s c of
                  None \<Rightarrow> s\<lparr>effective := (effective s)(c := outer)\<rparr>
                | Some k \<Rightarrow>
                    (let kc = length (signals s);
                         S1 = addListener outer (AbortWithReasonOf kc outer) (signals s @ [freshSignal]);
                         (S2, eff) = combineSignals [Some outer, Some kc] S1
                     in s\<lparr>effective := (effective s)(c := eff), signals := S2\<rparr>));
          s2 = (case loopHead cfg c 0 None s1 of
                  Inl s' \<Rightarrow> s'
                | Inr out \<Rightarrow> s1\<lparr>phase := (phase s1)(c := Settling out)\<rparr>)
      in case keyed s c of
           None \<Rightarrow> s2
         | Some k \<Rightarrow>
             s2\<lparr>inFlightByKey := (inFlightByKey s2)(k \<mapsto>
                  \<lparr>controller = effective s2 c, resultPromise = c, startedAt = now s2\<rparr>)\<rparr>)"

text \<open>\<^verbatim>\<open>task.run\<close>\<close>

definition run :: "ClientConfig \<Rightarrow> cid \<Rightarrow> Client \<Rightarrow> Client" where
  "run cfg c s =
     (let s1 = supersede c (logEntry (Ran c) (s\<lparr>inFlight := inFlight s + 1\<rparr>))
      in case dedupeTarget c s1 of
           Some active \<Rightarrow> follow c active s1
         | None \<Rightarrow> launch cfg c s1)"

definition dequeue :: "ClientConfig \<Rightarrow> Client \<Rightarrow> Client" where
  "dequeue cfg s =
     (if capacity cfg \<noteq> 0 \<and> capacity cfg \<le> inFlight s then s
      else if queue s = [] then s
      else if strategy cfg = Lifo
        then run cfg (last (queue s)) (s\<lparr>queue := butlast (queue s)\<rparr>)
        else run cfg (hd (queue s)) (s\<lparr>queue := tl (queue s)\<rparr>))"

definition enqueue :: "ClientConfig \<Rightarrow> cid \<Rightarrow> Client \<Rightarrow> Client" where
  "enqueue cfg c s =
     (if capacity cfg = 0 \<or> inFlight s < capacity cfg then run cfg c s
      else if strategy cfg = Drop then
        (let s1 = settlePromise c (Rejected DroppedError) (logEntry (OnDrop c (keyOf s c)) s)
         in s1\<lparr>phase := (phase s1)(c := Dropped)\<rparr>)
      else
        (let s1 = logEntry (OnEnqueue c (keyOf s c)) s
         in s1\<lparr>queue := queue s1 @ [c], phase := (phase s1)(c := Queued)\<rparr>))"

text \<open>The \<^verbatim>\<open>finally\<close> callbacks of a call that ran and of a follower.\<close>

definition finalizeLeader :: "ClientConfig \<Rightarrow> cid \<Rightarrow> Client \<Rightarrow> Client" where
  "finalizeLeader cfg c s =
     dequeue cfg
       (s\<lparr>inFlight := inFlight s - 1,
          timeoutId := (timeoutId s)(c := False),
          inFlightByKey := (case keyed s c of None \<Rightarrow> inFlightByKey s
                            | Some k \<Rightarrow> (inFlightByKey s)(k := None)),
          phase := (phase s)(c := Finished)\<rparr>)"

definition finalizeFollower :: "ClientConfig \<Rightarrow> cid \<Rightarrow> Client \<Rightarrow> Client" where
  "finalizeFollower cfg f s =
     dequeue cfg (s\<lparr>inFlight := inFlight s - 1, phase := (phase s)(f := Finished)\<rparr>)"

text \<open>
  The promise of \<^verbatim>\<open>runWithRetry\<close> settles with \<open>out\<close>: the reactions of the chain
  \<^verbatim>\<open>.then(...).catch(...).finally(...)\<close> run, and those of the followers subscribed to the
  result promise. In the order of the microtask queue the \<^verbatim>\<open>finally\<close> of the call runs
  before those of its followers, which run in the order they subscribed; the promises
  are written before (the writes touch no field a \<^verbatim>\<open>finally\<close> reads).
\<close>

definition settle :: "ClientConfig \<Rightarrow> cid \<Rightarrow> outcome \<Rightarrow> Client \<Rightarrow> Client" where
  "settle cfg c out s =
     (let fs = reactions s c;
          s0 = (case out of Resolved v \<Rightarrow> s | Rejected e \<Rightarrow> logEntry (OnError c e (keyOf s c)) s);
          s1 = settlePromise c out s0;
          s2 = fold (\<lambda>f. settlePromise f out) fs (s1\<lparr>reactions := (reactions s1)(c := [])\<rparr>);
          s3 = finalizeLeader cfg c s2
      in fold (finalizeFollower cfg) fs s3)"

text \<open>The \<^verbatim>\<open>catch\<close> block of \<^verbatim>\<open>runWithRetry\<close> at index \<open>i\<close>. Without a policy the
  expression \<^verbatim>\<open>p!.attempts\<close> reads a property of \<^verbatim>\<open>undefined\<close> and throws.\<close>

definition catchBlock :: "ClientConfig \<Rightarrow> cid \<Rightarrow> nat \<Rightarrow> error \<Rightarrow> Client \<Rightarrow> Client" where
  "catchBlock cfg c i err s =
     (if isAbort err then settle cfg c (Rejected err) s
      else case policyOf cfg s c of
        None \<Rightarrow> settle cfg c (Rejected NullDeref) s
      | Some p \<Rightarrow>
          if int i < attempts p - 1 \<and> shouldRetry p None (Some err) then
            (let d = calcBackoffDelay (int i) p (entropy s (drawn s));
                 s1 = logEntry (Slept c d) (s\<lparr>drawn := drawn s + 1\<rparr>)
             in s1\<lparr>phase := (phase s1)(c := Sleeping i err)\<rparr>)
          else settle cfg c (Rejected err) s)"

text \<open>\<^verbatim>\<open>doFetch\<close> after \<^verbatim>\<open>await fetch(...)\<close> returned a response.\<close>

definition fetchResolved :: "ClientConfig \<Rightarrow> cid \<Rightarrow> nat \<Rightarrow> int \<Rightarrow> Response \<Rightarrow> Client \<Rightarrow> Client" where
  "fetchResolved cfg c i start res s =
     (let s1 = logEntry (OnFinish c (keyOf s c) (input (call s c)) (ok res) (status res) (now s - start)) s
      in if \<not> ok res then catchBlock cfg c i (HttpError res) s1
         else s1\<lparr>phase := (phase s1)(c := Parsing i)\<rparr>)"

text \<open>\<^verbatim>\<open>request\<close>\<close>

definition request :: "ClientConfig \<Rightarrow> string \<Rightarrow> RequestOptions \<Rightarrow> Client \<Rightarrow> Client" where
  "request cfg url opts s =
     (let c = ncalls s;
          t = length (signals s);
          ms = (case timeoutMs opts of None \<Rightarrow> defaultTimeoutMs cfg | Some m \<Rightarrow> Some m);
          (S, outer) = combineSignals [signal opts, Some t] (signals s @ [freshSignal])
      in enqueue cfg c
           (s\<lparr>ncalls := Suc c,
              call := (call s)(c := \<lparr>input = url, options = opts, timeoutController = t,
                                     outerController = outer\<rparr>),
              phase := (phase s)(c := Created),
              timeoutId := (timeoutId s)(c := (case ms of None \<Rightarrow> False | Some m \<Rightarrow> 0 < m)),
              signals := S\<rparr>))"

subsection \<open>Steps\<close>

datatype event =
    Request string RequestOptions \<comment> \<open>the caller calls \<^verbatim>\<open>request\<close>\<close>
  | FetchResolved cid Response \<comment> \<open>the transport of the call returns a response\<close>
  | FetchRejected cid error \<comment> \<open>the transport of the call rejects\<close>
  | ParseDone cid "error + val" \<comment> \<open>the parser's promise settles\<close>
  | SleepDone cid \<comment> \<open>the backoff sleep of the call ends\<close>
  | Reactions cid \<comment> \<open>the reactions of a settled \<^verbatim>\<open>runWithRetry\<close> promise run\<close>
  | TimerFired cid \<comment> \<open>the timeout timer of the call fires\<close>
  | Cancel cid \<comment> \<open>the caller calls \<^verbatim>\<open>cancel\<close> of the handle\<close>
  | NewController \<comment> \<open>the caller makes an \<^verbatim>\<open>AbortController\<close>\<close>
  | UserAbort sid "reason option" \<comment> \<open>the caller aborts a controller of its own\<close>
  | Tick nat \<comment> \<open>time passes\<close>

fun step :: "ClientConfig \<Rightarrow> Client \<Rightarrow> event \<Rightarrow> Client" where
  "step cfg s (Request url opts) = request cfg url opts s"
| "step cfg s (FetchResolved c res) =
     (case phase s c of Fetching i start \<Rightarrow> fetchResolved cfg c i start res s | _ \<Rightarrow> s)"
| "step cfg s (FetchRejected c err) =
     (case phase s c of Fetching i start \<Rightarrow> catchBlock cfg c i err s | _ \<Rightarrow> s)"
| "step cfg s (ParseDone c r) =
     (case phase s c of
        Parsing i \<Rightarrow> (case r of Inl err \<Rightarrow> catchBlock cfg c i err s
                      | Inr v \<Rightarrow> settle cfg c (Resolved v) s)
      | _ \<Rightarrow> s)"
| "step cfg s (SleepDone c) =
     (case phase s c of
        Sleeping i err \<Rightarrow> (case loopHead cfg c (Suc i) (Some err) s of
                             Inl s' \<Rightarrow> s' | Inr out \<Rightarrow> settle cfg c out s)
      | _ \<Rightarrow> s)"
| "step cfg s (Reactions c) =
     (case phase s c of Settling out \<Rightarrow> settle cfg c out s | _ \<Rightarrow> s)"
| "step cfg s (TimerFired c) =
     (if timeoutId s c
      then s\<lparr>timeoutId := (timeoutId s)(c := False),
             signals := runActions [Abort (timeoutController (call s c)) (Some Timeout)] (signals s)\<rparr>
      else s)"
| "step cfg s (Cancel c) =
     (if c < ncalls s
      then s\<lparr>signals := runActions [Abort (timeoutController (call s c)) (Some Cancelled)] (signals s)\<rparr>
      else s)"
| "step cfg s NewController =
     s\<lparr>signals := signals s @ [freshSignal], userSignals := length (signals s) # userSignals s\<rparr>"
| "step cfg s (UserAbort g r) =
     (if g \<in> set (userSignals s) then s\<lparr>signals := runActions [Abort g r] (signals s)\<rparr> else s)"
| "step cfg s (Tick d) = s\<lparr>now := now s + int d\<rparr>"

definition steps :: "ClientConfig \<Rightarrow> Client \<Rightarrow> event list \<Rightarrow> Client" where
  "steps cfg s evs = foldl (step cfg) s evs"

section \<open>Observations and invariants\<close>

text \<open>A call leads when it runs its own retry loop; it is active when it has entered
  \<^verbatim>\<open>task.run\<close> and its \<^verbatim>\<open>finally\<close> callback has not run: it leads or it follows.\<close>

fun leading :: "phase \<Rightarrow> bool" where
  "leading (Fetching i t) = True"
| "leading (Parsing i) = True"
| "leading (Sleeping i e) = True"
| "leading (Settling out) = True"
| "leading ph = False"

fun following :: "phase \<Rightarrow> bool" where
  "following (Following l) = True"
| "following ph = False"

definition active :: "phase \<Rightarrow> bool" where
  "active ph = (leading ph \<or> following ph)"

fun waiting :: "phase \<Rightarrow> bool" where
  "waiting Created = True"
| "waiting Queued = True"
| "waiting ph = False"

definition busy :: "Client \<Rightarrow> nat" where
  "busy s = card {c. active (phase s c)}"


text \<open>The calls that run their retry loop, counted over the calls made so far.\<close>

definition executingNow :: "Client \<Rightarrow> nat" where
  "executingNow s = length (filter (\<lambda>c. leading (phase s c)) [0..<ncalls s])"

text \<open>Readings of the trace: the calls that entered \<^verbatim>\<open>task.run\<close>, the calls a transport
  call was made for, the calls that were put on the wait queue, the sleeps of a call and
  the calls of the finish hook for one call, each in order.\<close>

definition rans :: "Client \<Rightarrow> cid list" where
  "rans s = List.map_filter (\<lambda>e. case e of Ran c \<Rightarrow> Some c | _ \<Rightarrow> None) (trace s)"

definition transports :: "Client \<Rightarrow> cid list" where
  "transports s = List.map_filter (\<lambda>e. case e of Transport c g \<Rightarrow> Some c | _ \<Rightarrow> None) (trace s)"

definition enqueued :: "Client \<Rightarrow> cid list" where
  "enqueued s = List.map_filter (\<lambda>e. case e of OnEnqueue c k \<Rightarrow> Some c | _ \<Rightarrow> None) (trace s)"

definition sleeps :: "Client \<Rightarrow> cid \<Rightarrow> int list" where
  "sleeps s c =
     List.map_filter (\<lambda>e. case e of Slept c' d \<Rightarrow> if c' = c then Some d else None | _ \<Rightarrow> None) (trace s)"

fun isFinish :: "entry \<Rightarrow> bool" where
  "isFinish (OnFinish c k u b n d) = True"
| "isFinish e = False"

fun finishOf :: "cid \<Rightarrow> entry \<Rightarrow> bool" where
  "finishOf c (OnFinish c' k u b n d) = (c' = c)"
| "finishOf c e = False"

definition finishHooksOf :: "Client \<Rightarrow> cid \<Rightarrow> entry list" where
  "finishHooksOf s c = filter (finishOf c) (trace s)"

text \<open>A step is quiet when it adds no call of the finish hook to the trace.\<close>

definition quiet :: "Client \<Rightarrow> Client \<Rightarrow> bool" where
  "quiet s s' = (\<exists>es. trace s' = trace s @ es \<and> (\<forall>e \<in> set es. \<not> isFinish e))"



text \<open>The invariant of the admission bookkeeping. The list \<open>fs\<close> holds the followers whose
  \<^verbatim>\<open>finally\<close> callback is still in the microtask queue while a settlement is under way;
  it is empty between steps.\<close>

definition fresh_ok :: "Client \<Rightarrow> bool" where
  "fresh_ok s = (\<forall>c. ncalls s \<le> c \<longrightarrow> phase s c = Unborn)"

definition count_ok :: "Client \<Rightarrow> bool" where
  "count_ok s = (inFlight s = int (busy s))"

definition cap_ok :: "ClientConfig \<Rightarrow> Client \<Rightarrow> bool" where
  "cap_ok cfg s = (capacity cfg \<noteq> 0 \<longrightarrow> inFlight s \<le> capacity cfg)"

definition queue_ok :: "Client \<Rightarrow> bool" where
  "queue_ok s = (distinct (queue s) \<and> (\<forall>c \<in> set (queue s). phase s c = Queued))"

definition subs_ok :: "Client \<Rightarrow> bool" where
  "subs_ok s = (\<forall>l. distinct (reactions s l) \<and> (\<forall>f \<in> set (reactions s l). phase s f = Following l))"

definition pend_ok :: "cid list \<Rightarrow> Client \<Rightarrow> bool" where
  "pend_ok fs s = (distinct fs \<and> (\<forall>f \<in> set fs. following (phase s f) \<and> (\<forall>l. f \<notin> set (reactions s l))))"

definition admission :: "ClientConfig \<Rightarrow> cid list \<Rightarrow> Client \<Rightarrow> bool" where
  "admission cfg fs s = (fresh_ok s \<and> count_ok s \<and> cap_ok cfg s \<and> queue_ok s \<and> subs_ok s \<and> pend_ok fs s)"


text \<open>The states inside \<^verbatim>\<open>settle\<close>: after the promises are written, and after the counter,
  the timer, the registry and the phase are updated in a \<^verbatim>\<open>finally\<close> callback, before it
  calls \<^verbatim>\<open>dequeue\<close>.\<close>

definition announce :: "cid \<Rightarrow> outcome \<Rightarrow> Client \<Rightarrow> Client" where
  "announce c out s =
     (let s0 = (case out of Resolved v \<Rightarrow> s | Rejected e \<Rightarrow> logEntry (OnError c e (keyOf s c)) s);
          s1 = settlePromise c out s0
      in fold (\<lambda>f. settlePromise f out) (reactions s c) (s1\<lparr>reactions := (reactions s1)(c := [])\<rparr>))"

definition retireLeader :: "cid \<Rightarrow> Client \<Rightarrow> Client" where
  "retireLeader c s =
     s\<lparr>inFlight := inFlight s - 1,
       timeoutId := (timeoutId s)(c := False),
       inFlightByKey := (case keyed s c of None \<Rightarrow> inFlightByKey s
                         | Some k \<Rightarrow> (inFlightByKey s)(k := None)),
       phase := (phase s)(c := Finished)\<rparr>"

definition retireFollower :: "cid \<Rightarrow> Client \<Rightarrow> Client" where
  "retireFollower f s = s\<lparr>inFlight := inFlight s - 1, phase := (phase s)(f := Finished)\<rparr>"










text \<open>The invariant of the wait queue: the queue holds the calls that were put on it and
  have not entered \<^verbatim>\<open>task.run\<close>, in the order they were put on it; and unless the strategy
  is \<^verbatim>\<open>lifo\<close>, the calls that were queued have started in that same order.\<close>

definition ordered :: "ClientConfig \<Rightarrow> Client \<Rightarrow> bool" where
  "ordered cfg s =
     (distinct (enqueued s) \<and>
      queue s = filter (\<lambda>c. c \<notin> set (rans s)) (enqueued s) \<and>
      (\<forall>c \<in> set (rans s). c < ncalls s) \<and> (\<forall>c \<in> set (enqueued s). c < ncalls s) \<and>
      (strategy cfg \<noteq> Lifo \<longrightarrow>
         enqueued s = filter (\<lambda>c. c \<in> set (enqueued s)) (rans s) @ queue s))"

section \<open>Scenarios\<close>

definition plain :: RequestOptions where
  "plain = \<lparr>signal = None, timeoutMs = None, key = None, lastOneWins = False, dedupe = False,
     retry = None\<rparr>"

definition resp :: "int \<Rightarrow> Response" where
  "resp n = \<lparr>status = n, statusText = []\<rparr>"

text \<open>\<^verbatim>\<open>{ attempts: 3, backoffBaseMs: 150, backoffFactor: 2, jitterRatio: 0 }\<close> as the
  default policy of a client; a call whose transport answers 503, 503 and 200.\<close>

definition retry3 :: RetryPolicy where
  "retry3 = \<lparr>attempts = 3, backoffBaseMs = Some 150, backoffFactor = Some 2, jitterRatio = Some 0,
     retryOn = None\<rparr>"

definition cfgRetry3 :: ClientConfig where
  "cfgRetry3 = \<lparr>maxInFlight = None, queueStrategy = None, defaultTimeoutMs = None,
     defaultRetry = Some retry3\<rparr>"


text \<open>A client that admits one call at a time and queues the others in order.\<close>

definition cfgOne :: ClientConfig where
  "cfgOne = \<lparr>maxInFlight = Some 1, queueStrategy = Some Fifo, defaultTimeoutMs = None, defaultRetry = None\<rparr>"

text \<open>The configuration of \<^verbatim>\<open>app.svelte\<close> (no retry policy), requests under the key
  \<^verbatim>\<open>search\<close>, and a random source that always returns 0.\<close>

definition cfgPlain :: ClientConfig where
  "cfgPlain = \<lparr>maxInFlight = None, queueStrategy = None, defaultTimeoutMs = Some 5000, defaultRetry = None\<rparr>"

definition noRandom :: "nat \<Rightarrow> real" where
  "noRandom n = 0"

definition searchDedupe :: RequestOptions where
  "searchDedupe = plain\<lparr>key := Some ''search'', dedupe := True\<rparr>"



text \<open>A client of capacity one with the strategy \<^verbatim>\<open>lifo\<close>, and three calls A, B, C.\<close>

definition cfgLifo :: ClientConfig where
  "cfgLifo = \<lparr>maxInFlight = Some 1, queueStrategy = Some Lifo, defaultTimeoutMs = None, defaultRetry = None\<rparr>"

definition abcScript :: "event list" where
  "abcScript = [Request ''/a'' plain, Request ''/b'' plain, Request ''/c'' plain]"

text \<open>Two calls under the key \<^verbatim>\<open>search\<close> with the flag \<^verbatim>\<open>lastOneWins\<close>, as \<^verbatim>\<open>app.svelte\<close>
  makes them; and a call that is cancelled before its transport answers.\<close>

definition search :: RequestOptions where
  "search = plain\<lparr>key := Some ''search'', lastOneWins := True\<rparr>"


section \<open>What each operation does to each field\<close>

lemmas client_defs = steps_def init_def request_def combineSignals_def freshSignal_def
  addListener_def enqueue_def capacity_def strategy_def run_def logEntry_def supersede_def keyed_def
  keyOf_def dedupeTarget_def follow_def launch_def loopHead_def policyOf_def doFetch_def
  fetchResolved_def ok_def catchBlock_def settle_def settlePromise_def finalizeLeader_def
  finalizeFollower_def dequeue_def shouldRetry_def calcBackoffDelay_def base_def factor_def jitter_def

lemmas trace_defs = rans_def transports_def enqueued_def sleeps_def finishHooksOf_def

lemma log_fields [simp]:
  "inFlight (logEntry e s) = inFlight s" "queue (logEntry e s) = queue s" "inFlightByKey (logEntry e s) = inFlightByKey s"
  "ncalls (logEntry e s) = ncalls s" "call (logEntry e s) = call s" "phase (logEntry e s) = phase s"
  "promise (logEntry e s) = promise s" "reactions (logEntry e s) = reactions s" "timeoutId (logEntry e s) = timeoutId s"
  "effective (logEntry e s) = effective s" "signals (logEntry e s) = signals s" "userSignals (logEntry e s) = userSignals s"
  "now (logEntry e s) = now s" "entropy (logEntry e s) = entropy s" "drawn (logEntry e s) = drawn s"
  "trace (logEntry e s) = trace s @ [e]"
  by (simp_all add: logEntry_def)

lemma keyOf_log [simp]: "keyOf (logEntry e s) = keyOf s"
  by (simp add: keyOf_def fun_eq_iff)

lemma keyed_log [simp]: "keyed (logEntry e s) = keyed s"
  by (simp add: keyed_def fun_eq_iff)

lemma settlePromise_fields [simp]:
  "inFlight (settlePromise c out s) = inFlight s" "queue (settlePromise c out s) = queue s"
  "inFlightByKey (settlePromise c out s) = inFlightByKey s"
  "ncalls (settlePromise c out s) = ncalls s" "call (settlePromise c out s) = call s"
  "phase (settlePromise c out s) = phase s"
  "reactions (settlePromise c out s) = reactions s" "timeoutId (settlePromise c out s) = timeoutId s"
  "effective (settlePromise c out s) = effective s" "signals (settlePromise c out s) = signals s"
  "trace (settlePromise c out s) = trace s"
  by (simp_all add: settlePromise_def)

lemma doFetch_fields [simp]:
  "inFlight (doFetch c i s) = inFlight s" "queue (doFetch c i s) = queue s"
  "inFlightByKey (doFetch c i s) = inFlightByKey s"
  "ncalls (doFetch c i s) = ncalls s" "call (doFetch c i s) = call s"
  "phase (doFetch c i s) = (phase s)(c := Fetching i (now s))"
  "promise (doFetch c i s) = promise s"
  "reactions (doFetch c i s) = reactions s" "timeoutId (doFetch c i s) = timeoutId s"
  "effective (doFetch c i s) = effective s" "signals (doFetch c i s) = signals s"
  "now (doFetch c i s) = now s"
  by (simp_all add: doFetch_def Let_def)

lemma supersede_fields [simp]:
  "inFlight (supersede c s) = inFlight s" "queue (supersede c s) = queue s"
  "ncalls (supersede c s) = ncalls s" "call (supersede c s) = call s"
  "phase (supersede c s) = phase s"
  "promise (supersede c s) = promise s"
  "reactions (supersede c s) = reactions s" "timeoutId (supersede c s) = timeoutId s"
  "trace (supersede c s) = trace s"
  by (simp_all add: supersede_def split: option.splits)

lemma launch_fields [simp]:
  "inFlight (launch cfg c s) = inFlight s" "queue (launch cfg c s) = queue s"
  "ncalls (launch cfg c s) = ncalls s" "call (launch cfg c s) = call s"
  "promise (launch cfg c s) = promise s"
  "reactions (launch cfg c s) = reactions s" "timeoutId (launch cfg c s) = timeoutId s"
  by (simp_all add: launch_def loopHead_def Let_def split: option.splits sum.splits prod.splits)

lemma launch_phase:
  "leading (phase (launch cfg c s) c)" "c' \<noteq> c \<Longrightarrow> phase (launch cfg c s) c' = phase s c'"
  by (simp_all add: launch_def loopHead_def Let_def split: option.splits sum.splits prod.splits)

lemma follow_fields [simp]:
  "inFlight (follow c a s) = inFlight s" "queue (follow c a s) = queue s"
  "ncalls (follow c a s) = ncalls s" "call (follow c a s) = call s"
  "promise (follow c a s) = promise s" "timeoutId (follow c a s) = timeoutId s"
  "trace (follow c a s) = trace s" "inFlightByKey (follow c a s) = inFlightByKey s"
  "signals (follow c a s) = signals s"
  "phase (follow c a s) = (phase s)(c := Following (resultPromise a))"
  "reactions (follow c a s) = (reactions s)(resultPromise a := reactions s (resultPromise a) @ [c])"
  by (simp_all add: follow_def)

lemma run_fields [simp]:
  "inFlight (run cfg c s) = inFlight s + 1" "queue (run cfg c s) = queue s"
  "ncalls (run cfg c s) = ncalls s" "call (run cfg c s) = call s"
  "promise (run cfg c s) = promise s" "timeoutId (run cfg c s) = timeoutId s"
  by (simp_all add: run_def Let_def split: option.splits)

lemma run_phase_other: "c' \<noteq> c \<Longrightarrow> phase (run cfg c s) c' = phase s c'"
  by (simp add: run_def Let_def launch_phase split: option.splits)

lemma run_cases:
  "(\<exists>l. phase (run cfg c s) c = Following l \<and>
        reactions (run cfg c s) = (reactions s)(l := reactions s l @ [c])) \<or>
   (leading (phase (run cfg c s) c) \<and> reactions (run cfg c s) = reactions s)"
  by (simp add: run_def Let_def launch_phase split: option.splits)



section \<open>The admission invariant holds in every reachable state\<close>

lemma active_simps [simp]:
  "active Unborn = False" "active Created = False" "active Queued = False" "active Dropped = False"
  "active Finished = False" "active (Following l) = True" "active (Fetching i t) = True"
  "active (Parsing i) = True" "active (Sleeping i e) = True" "active (Settling out) = True"
  by (simp_all add: active_def)

lemma leading_active: "leading ph \<Longrightarrow> active ph"
  by (simp add: active_def)

lemma following_iff: "following ph \<longleftrightarrow> (\<exists>l. ph = Following l)"
  by (cases ph) simp_all

lemma finite_active: "fresh_ok s \<Longrightarrow> finite {c. active (phase s c)}"
proof -
  assume a: "fresh_ok s"
  have "{c. active (phase s c)} \<subseteq> {..<ncalls s}"
  proof
    fix c assume "c \<in> {c. active (phase s c)}"
    then have "phase s c \<noteq> Unborn" by auto
    with a show "c \<in> {..<ncalls s}" by (auto simp: fresh_ok_def not_le[symmetric])
  qed
  then show ?thesis by (rule finite_subset) simp
qed

lemma card_upd:
  assumes "finite {c. P (ph c)}"
  shows "int (card {c. P ((ph(c0 := x)) c)}) =
         int (card {c. P (ph c)}) - (if P (ph c0) then 1 else 0) + (if P x then 1 else 0)"
proof -
  let ?A = "{c. P (ph c)}"
  have eq: "{c. P ((ph(c0 := x)) c)} = (if P x then insert c0 ?A else ?A - {c0})"
    by auto
  show ?thesis
  proof (cases "P x")
    case True
    then show ?thesis using assms eq by (simp add: card_insert_if)
  next
    case False
    have "c0 \<in> ?A \<Longrightarrow> 0 < card ?A" using assms by (auto simp: card_gt_0_iff)
    then show ?thesis using False assms eq by (auto simp add: card_Diff_singleton_if Suc_leI)
  qed
qed

lemma busy_phase_upd:
  assumes "fresh_ok s" and "phase s' = (phase s)(c := ph)"
  shows "int (busy s') = int (busy s) - (if active (phase s c) then 1 else 0) + (if active ph then 1 else 0)"
  using card_upd[where P = active and ph = "phase s", OF finite_active[OF assms(1)], of c ph] assms(2)
  by (simp add: busy_def)

lemma run_phase_upd: "phase (run cfg c s) = (phase s)(c := phase (run cfg c s) c)"
  by (rule ext) (simp add: run_phase_other)

lemma run_active: "active (phase (run cfg c s) c)"
  using run_cases[of cfg c s] by (auto simp: leading_active)

lemma pend_ok_frame:
  assumes "pend_ok fs s" and "\<And>f. f \<in> set fs \<Longrightarrow> phase s' f = phase s f"
    and "\<And>f l. f \<in> set fs \<Longrightarrow> f \<in> set (reactions s' l) \<Longrightarrow> f \<in> set (reactions s l)"
  shows "pend_ok fs s'"
  using assms unfolding pend_ok_def by metis

lemma subs_ok_append:
  assumes "subs_ok s" and "\<And>l. c \<notin> set (reactions s l)"
    and "reactions s' = (reactions s)(l := reactions s l @ [c])"
    and "phase s' c = Following l" and "\<And>c'. c' \<noteq> c \<Longrightarrow> phase s' c' = phase s c'"
  shows "subs_ok s'"
  unfolding subs_ok_def
proof (intro allI conjI ballI)
  fix l' show "distinct (reactions s' l')"
    using assms(1,2,3) by (auto simp: subs_ok_def)
next
  fix l' g assume g: "g \<in> set (reactions s' l')"
  show "phase s' g = Following l'"
  proof (cases "g = c")
    case True
    with g assms(2,3) have "l' = l" by (auto split: if_splits)
    with True assms(4) show ?thesis by simp
  next
    case False
    with g assms(3) have "g \<in> set (reactions s l')" by (auto split: if_splits)
    with assms(1) have "phase s g = Following l'" by (auto simp: subs_ok_def)
    with False assms(5) show ?thesis by simp
  qed
qed

lemma subs_ok_same:
  assumes "subs_ok s" and "\<And>l. c \<notin> set (reactions s l)"
    and "reactions s' = reactions s" and "\<And>c'. c' \<noteq> c \<Longrightarrow> phase s' c' = phase s c'"
  shows "subs_ok s'"
  unfolding subs_ok_def
proof (intro allI conjI ballI)
  fix l' show "distinct (reactions s' l')"
    using assms(1,3) by (auto simp: subs_ok_def)
next
  fix l' g assume g: "g \<in> set (reactions s' l')"
  then have "g \<noteq> c" and "phase s g = Following l'"
    using assms(1,2,3) by (auto simp: subs_ok_def)
  with assms(4) show "phase s' g = Following l'" by simp
qed

lemma run_inv:
  assumes "admission cfg fs s" and "waiting (phase s c)" and "c \<notin> set (queue s)" and "c < ncalls s"
    and "capacity cfg = 0 \<or> inFlight s < capacity cfg"
  shows "admission cfg fs (run cfg c s)"
proof -
  let ?s = "run cfg c s"
  from assms(1) have f: "fresh_ok s" and n: "count_ok s" and q: "queue_ok s" and r: "subs_ok s"
    and p: "pend_ok fs s" by (simp_all add: admission_def)
  have inact: "\<not> active (phase s c)" using assms(2) by (cases "phase s c") simp_all
  have nofollow: "\<not> following (phase s c)" using assms(2) by (cases "phase s c") simp_all
  have cnotin: "c \<notin> set (reactions s l)" for l
    using r assms(2) by (auto simp: subs_ok_def)
  have cnotfs: "c \<notin> set fs" using p nofollow by (auto simp: pend_ok_def)
  have other: "phase ?s c' = phase s c'" if "c' \<noteq> c" for c' using that by (rule run_phase_other)
  have fsphase: "phase ?s g = phase s g" if "g \<in> set fs" for g
    using that cnotfs other by metis
  have 1: "fresh_ok ?s"
    unfolding fresh_ok_def
  proof (intro allI impI)
    fix c' assume "ncalls ?s \<le> c'"
    then have "c' \<noteq> c" "phase s c' = Unborn" using f assms(4) by (auto simp: fresh_ok_def)
    then show "phase ?s c' = Unborn" by (simp add: other)
  qed
  have 2: "count_ok ?s"
    using busy_phase_upd[OF f run_phase_upd, of cfg c] n inact run_active[of cfg c s]
    by (simp add: count_ok_def)
  have 3: "cap_ok cfg ?s" using assms(5) by (auto simp: cap_ok_def)
  have 4: "queue_ok ?s"
    unfolding queue_ok_def
  proof (intro conjI ballI)
    show "distinct (queue ?s)" using q by (simp add: queue_ok_def)
  next
    fix c' assume "c' \<in> set (queue ?s)"
    then have "c' \<noteq> c" "phase s c' = Queued" using q assms(3) by (auto simp: queue_ok_def)
    then show "phase ?s c' = Queued" by (simp add: other)
  qed
  have 5: "subs_ok ?s \<and> pend_ok fs ?s"
    using run_cases[of cfg c s]
  proof
    assume "\<exists>l. phase ?s c = Following l \<and> reactions ?s = (reactions s)(l := reactions s l @ [c])"
    then obtain l where l: "phase ?s c = Following l"
      "reactions ?s = (reactions s)(l := reactions s l @ [c])" by blast
    have "subs_ok ?s"
      using r cnotin l(2) l(1) other by (rule subs_ok_append)
    moreover have "pend_ok fs ?s"
    proof (rule pend_ok_frame[OF p fsphase])
      fix g l' assume "g \<in> set fs" "g \<in> set (reactions ?s l')"
      then show "g \<in> set (reactions s l')" using cnotfs l(2) by (auto split: if_splits)
    qed
    ultimately show ?thesis by simp
  next
    assume a: "leading (phase ?s c) \<and> reactions ?s = reactions s"
    have "subs_ok ?s"
      using r cnotin _ other by (rule subs_ok_same) (simp add: a)
    moreover have "pend_ok fs ?s"
      by (rule pend_ok_frame[OF p fsphase]) (simp_all add: a)
    ultimately show ?thesis by simp
  qed
  from 1 2 3 4 5 show ?thesis by (simp add: admission_def)
qed


lemma inv_fields:
  assumes "ncalls s' = ncalls s" "phase s' = phase s" "inFlight s' = inFlight s"
    "queue s' = queue s" "reactions s' = reactions s"
  shows "admission cfg fs s' = admission cfg fs s"
  using assms
  by (simp add: admission_def fresh_ok_def count_ok_def busy_def cap_ok_def queue_ok_def subs_ok_def pend_ok_def)

lemma inv_phase_change:
  assumes i: "admission cfg fs s"
    and same: "ncalls s' = ncalls s" "queue s' = queue s" "reactions s' = reactions s"
    and ph: "phase s' = (phase s)(c := ph)"
    and cnt: "inFlight s' = inFlight s - (if active (phase s c) then 1 else 0) + (if active ph then 1 else 0)"
    and cap: "capacity cfg \<noteq> 0 \<longrightarrow> inFlight s' \<le> capacity cfg"
    and nq: "c \<notin> set (queue s)" and nr: "\<And>l. c \<notin> set (reactions s l)" and nf: "c \<notin> set fs"
    and born: "c < ncalls s"
  shows "admission cfg fs s'"
proof -
  from i have f: "fresh_ok s" and n: "count_ok s" and q: "queue_ok s" and r: "subs_ok s"
    and p: "pend_ok fs s" by (simp_all add: admission_def)
  have other: "phase s' c' = phase s c'" if "c' \<noteq> c" for c' using that ph by simp
  have 1: "fresh_ok s'"
    using f born same(1) ph by (auto simp: fresh_ok_def)
  have 2: "count_ok s'"
    using busy_phase_upd[OF f ph] n cnt by (simp add: count_ok_def)
  have 3: "cap_ok cfg s'" using cap by (simp add: cap_ok_def)
  have 4: "queue_ok s'" using q nq same(2) ph by (auto simp: queue_ok_def)
  have 5: "subs_ok s'" using r nr same(3) other by (rule subs_ok_same)
  have 6: "pend_ok fs s'"
  proof (rule pend_ok_frame[OF p])
    fix g assume "g \<in> set fs" then show "phase s' g = phase s g" using nf other by metis
  qed (simp add: same(3))
  from 1 2 3 4 5 6 show ?thesis by (simp add: admission_def)
qed

lemma inv_leading_notin:
  assumes "admission cfg fs s" and "leading (phase s c)"
  shows "c \<notin> set (queue s)" "c \<notin> set (reactions s l)" "c \<notin> set fs" "c < ncalls s"
proof -
  from assms(1) have f: "fresh_ok s" and q: "queue_ok s" and r: "subs_ok s"
    and p: "pend_ok fs s" by (simp_all add: admission_def)
  show "c \<notin> set (queue s)" using q assms(2) by (auto simp: queue_ok_def)
  show "c \<notin> set (reactions s l)" using r assms(2) by (auto simp: subs_ok_def)
  show "c \<notin> set fs" using p assms(2) by (cases "phase s c") (auto simp: pend_ok_def)
  show "c < ncalls s" using f assms(2) by (cases "c < ncalls s") (auto simp: fresh_ok_def)
qed

lemma inv_queue_sub:
  assumes "admission cfg fs s" and "distinct q" and "set q \<subseteq> set (queue s)"
  shows "admission cfg fs (s\<lparr>queue := q\<rparr>)"
  using assms
  by (auto simp add: admission_def fresh_ok_def count_ok_def busy_def cap_ok_def queue_ok_def subs_ok_def pend_ok_def)

lemma dequeue_inv:
  assumes "admission cfg fs s"
  shows "admission cfg fs (dequeue cfg s)"
proof -
  from assms have f: "fresh_ok s" and q: "queue_ok s" by (simp_all add: admission_def)
  have born: "t < ncalls s" if "t \<in> set (queue s)" for t
    using that f q by (cases "t < ncalls s") (auto simp: fresh_ok_def queue_ok_def)
  show ?thesis
  proof (cases "(capacity cfg \<noteq> 0 \<and> capacity cfg \<le> inFlight s) \<or> queue s = []")
    case True
    then show ?thesis using assms by (auto simp: dequeue_def)
  next
    case False
    then have ne: "queue s \<noteq> []" and room: "capacity cfg = 0 \<or> inFlight s < capacity cfg" by auto
    show ?thesis
    proof (cases "strategy cfg = Lifo")
      case True
      let ?t = "last (queue s)" and ?q = "butlast (queue s)"
      have split: "queue s = ?q @ [?t]" using ne by simp
      have d: "distinct (?q @ [?t])" using q split by (simp add: queue_ok_def)
      have "admission cfg fs (s\<lparr>queue := ?q\<rparr>)"
        using assms d by (intro inv_queue_sub) (auto dest: in_set_butlastD)
      moreover have "waiting (phase (s\<lparr>queue := ?q\<rparr>) ?t)"
        using q ne by (simp add: queue_ok_def)
      moreover have "?t \<notin> set (queue (s\<lparr>queue := ?q\<rparr>))" using d by simp
      moreover have "?t < ncalls (s\<lparr>queue := ?q\<rparr>)" using born[of ?t] ne by simp
      ultimately have "admission cfg fs (run cfg ?t (s\<lparr>queue := ?q\<rparr>))"
        using room by (intro run_inv) simp_all
      then show ?thesis using ne room True by (auto simp: dequeue_def)
    next
      case nl: False
      let ?t = "hd (queue s)" and ?q = "tl (queue s)"
      have split: "queue s = ?t # ?q" using ne by simp
      have d: "distinct (?t # ?q)" using q split by (simp add: queue_ok_def)
      have "set ?q \<subseteq> set (queue s)" using split by (metis set_subset_Cons)
      then have "admission cfg fs (s\<lparr>queue := ?q\<rparr>)"
        using assms d by (intro inv_queue_sub) auto
      moreover have "waiting (phase (s\<lparr>queue := ?q\<rparr>) ?t)"
        using q ne by (simp add: queue_ok_def)
      moreover have "?t \<notin> set (queue (s\<lparr>queue := ?q\<rparr>))" using d by simp
      moreover have "?t < ncalls (s\<lparr>queue := ?q\<rparr>)" using born[of ?t] ne by simp
      ultimately have "admission cfg fs (run cfg ?t (s\<lparr>queue := ?q\<rparr>))"
        using room by (intro run_inv) simp_all
      then show ?thesis using ne room nl by (auto simp: dequeue_def)
    qed
  qed
qed


lemma dequeue_fields [simp]:
  "ncalls (dequeue cfg s) = ncalls s" "call (dequeue cfg s) = call s"
  "promise (dequeue cfg s) = promise s" "timeoutId (dequeue cfg s) = timeoutId s"
  by (simp_all add: dequeue_def)

lemma fold_settlePromise_fields [simp]:
  "inFlight (fold (\<lambda>f. settlePromise f out) fs s) = inFlight s"
  "queue (fold (\<lambda>f. settlePromise f out) fs s) = queue s"
  "ncalls (fold (\<lambda>f. settlePromise f out) fs s) = ncalls s"
  "phase (fold (\<lambda>f. settlePromise f out) fs s) = phase s"
  "reactions (fold (\<lambda>f. settlePromise f out) fs s) = reactions s"
  "call (fold (\<lambda>f. settlePromise f out) fs s) = call s"
  "inFlightByKey (fold (\<lambda>f. settlePromise f out) fs s) = inFlightByKey s"
  "trace (fold (\<lambda>f. settlePromise f out) fs s) = trace s"
  by (induction fs arbitrary: s) simp_all

lemma finalizeLeader_alt: "finalizeLeader cfg c s = dequeue cfg (retireLeader c s)"
  by (simp add: finalizeLeader_def retireLeader_def)

lemma finalizeFollower_alt: "finalizeFollower cfg f s = dequeue cfg (retireFollower f s)"
  by (simp add: finalizeFollower_def retireFollower_def)

lemma keyed_cong: "call s' = call s \<Longrightarrow> keyed s' = keyed s"
  by (simp add: keyed_def keyOf_def fun_eq_iff)

lemma settle_alt:
  "settle cfg c out s = fold (finalizeFollower cfg) (reactions s c) (finalizeLeader cfg c (announce c out s))"
  by (simp add: settle_def announce_def Let_def)


lemma fold_settlePromise_more [simp]:
  "timeoutId (fold (\<lambda>f. settlePromise f out) fs s) = timeoutId s"
  "effective (fold (\<lambda>f. settlePromise f out) fs s) = effective s"
  "signals (fold (\<lambda>f. settlePromise f out) fs s) = signals s"
  by (induction fs arbitrary: s) simp_all

lemma announce_fields [simp]:
  "ncalls (announce c out s) = ncalls s" "phase (announce c out s) = phase s"
  "inFlight (announce c out s) = inFlight s" "queue (announce c out s) = queue s"
  "reactions (announce c out s) = (reactions s)(c := [])" "call (announce c out s) = call s"
  "inFlightByKey (announce c out s) = inFlightByKey s"
  by (simp_all add: announce_def Let_def split: outcome.splits)


lemma announce_inv:
  assumes "admission cfg [] s"
  shows "admission cfg (reactions s c) (announce c out s)"
proof -
  let ?s2 = "announce c out s" and ?fs = "reactions s c"
  from assms(1) have f: "fresh_ok s" and n: "count_ok s" and q: "queue_ok s" and r: "subs_ok s"
    and cp: "cap_ok cfg s" by (simp_all add: admission_def)
  show ?thesis
    unfolding admission_def
  proof (intro conjI)
    show "fresh_ok ?s2" using f by (simp add: fresh_ok_def)
    show "count_ok ?s2" using n by (simp add: count_ok_def busy_def)
    show "cap_ok cfg ?s2" using cp by (simp add: cap_ok_def)
    show "queue_ok ?s2" using q by (simp add: queue_ok_def)
    show "subs_ok ?s2" using r by (auto simp: subs_ok_def)
    show "pend_ok ?fs ?s2"
      unfolding pend_ok_def
    proof (intro conjI ballI allI)
      show "distinct ?fs" using r by (simp add: subs_ok_def)
    next
      fix g assume g: "g \<in> set ?fs"
      then have pg: "phase s g = Following c" using r by (auto simp: subs_ok_def)
      then show "following (phase ?s2 g)" by simp
      fix l show "g \<notin> set (reactions ?s2 l)"
      proof
        assume "g \<in> set (reactions ?s2 l)"
        then have "l \<noteq> c" "g \<in> set (reactions s l)" by (auto split: if_splits)
        then have "phase s g = Following l" using r by (auto simp: subs_ok_def)
        with pg \<open>l \<noteq> c\<close> show False by simp
      qed
    qed
  qed
qed

lemma retireLeader_fields [simp]:
  "ncalls (retireLeader c s) = ncalls s" "phase (retireLeader c s) = (phase s)(c := Finished)"
  "inFlight (retireLeader c s) = inFlight s - 1" "queue (retireLeader c s) = queue s"
  "reactions (retireLeader c s) = reactions s" "call (retireLeader c s) = call s"
  "promise (retireLeader c s) = promise s"
  "inFlightByKey (retireLeader c s) = (case keyed s c of None \<Rightarrow> inFlightByKey s
                         | Some k \<Rightarrow> (inFlightByKey s)(k := None))"
  by (simp_all add: retireLeader_def)

lemma retireFollower_fields [simp]:
  "ncalls (retireFollower c s) = ncalls s" "phase (retireFollower c s) = (phase s)(c := Finished)"
  "inFlight (retireFollower c s) = inFlight s - 1" "queue (retireFollower c s) = queue s"
  "reactions (retireFollower c s) = reactions s" "call (retireFollower c s) = call s"
  "promise (retireFollower c s) = promise s" "inFlightByKey (retireFollower c s) = inFlightByKey s"
  by (simp_all add: retireFollower_def)

lemma retireLeader_inv:
  assumes "admission cfg fs s" and "leading (phase s c)"
  shows "admission cfg fs (retireLeader c s)"
proof -
  from assms have cp: "cap_ok cfg s" by (simp add: admission_def)
  show ?thesis
    using assms(1) _ _ _ _ _ _ inv_leading_notin[OF assms]
  proof (rule inv_phase_change[where ph = Finished])
    show "capacity cfg \<noteq> 0 \<longrightarrow> inFlight (retireLeader c s) \<le> capacity cfg"
      using cp by (auto simp: cap_ok_def)
  qed (simp_all add: leading_active[OF assms(2)])
qed

lemma retireFollower_inv:
  assumes "admission cfg (f # fs) s"
  shows "admission cfg fs (retireFollower f s)"
proof -
  from assms have fr: "fresh_ok s" and q: "queue_ok s" and p: "pend_ok (f # fs) s"
    and c: "cap_ok cfg s" by (simp_all add: admission_def)
  from p have fol: "following (phase s f)" and nr: "\<And>l. f \<notin> set (reactions s l)"
    and nf: "f \<notin> set fs" and pfs: "pend_ok fs s"
    by (auto simp: pend_ok_def)
  have act: "active (phase s f)" using fol by (simp add: active_def)
  have i0: "admission cfg fs s" using assms pfs by (simp add: admission_def)
  have nq: "f \<notin> set (queue s)" using q fol by (auto simp: queue_ok_def)
  have born: "f < ncalls s" using fr fol by (cases "f < ncalls s") (auto simp: fresh_ok_def)
  show ?thesis
    using i0 _ _ _ _ _ _ nq nr nf born
  proof (rule inv_phase_change[where ph = Finished])
    show "capacity cfg \<noteq> 0 \<longrightarrow> inFlight (retireFollower f s) \<le> capacity cfg"
      using c by (auto simp: cap_ok_def)
  qed (simp_all add: act)
qed

lemma finalizeFollower_inv:
  assumes "admission cfg (f # fs) s"
  shows "admission cfg fs (finalizeFollower cfg f s)"
  unfolding finalizeFollower_alt using retireFollower_inv[OF assms] by (rule dequeue_inv)

lemma fold_finalizeFollower_inv:
  "admission cfg (fs @ gs) s \<Longrightarrow> admission cfg gs (fold (finalizeFollower cfg) fs s)"
proof (induction fs arbitrary: s)
  case Nil
  then show ?case by simp
next
  case (Cons f fs)
  from Cons.prems have "admission cfg (fs @ gs) (finalizeFollower cfg f s)"
    by (simp add: finalizeFollower_inv)
  then show ?case using Cons.IH by simp
qed

lemma finalizeLeader_inv:
  assumes "admission cfg fs s" and "leading (phase s c)"
  shows "admission cfg fs (finalizeLeader cfg c s)"
  unfolding finalizeLeader_alt using retireLeader_inv[OF assms] by (rule dequeue_inv)

lemma settle_inv:
  assumes "admission cfg [] s" and "leading (phase s c)"
  shows "admission cfg [] (settle cfg c out s)"
proof -
  have "admission cfg (reactions s c @ []) (finalizeLeader cfg c (announce c out s))"
    using announce_inv[OF assms(1), of c out] assms(2) by (simp add: finalizeLeader_inv)
  then show ?thesis unfolding settle_alt by (rule fold_finalizeFollower_inv)
qed

lemma inv_relead:
  assumes "admission cfg [] s" and "leading (phase s c)" and "leading ph"
    and "ncalls s' = ncalls s" "queue s' = queue s" "reactions s' = reactions s"
    and "inFlight s' = inFlight s" and "phase s' = (phase s)(c := ph)"
  shows "admission cfg [] s'"
proof -
  from assms(1) have cp: "cap_ok cfg s" by (simp add: admission_def)
  show ?thesis
    using assms(1,4,5,6,8) _ _ inv_leading_notin[OF assms(1,2)]
  proof (rule inv_phase_change)
    show "capacity cfg \<noteq> 0 \<longrightarrow> inFlight s' \<le> capacity cfg" using cp assms(7) by (simp add: cap_ok_def)
  qed (simp add: assms(7) leading_active[OF assms(2)] leading_active[OF assms(3)])
qed

lemma doFetch_inv:
  assumes "admission cfg [] s" and "leading (phase s c)"
  shows "admission cfg [] (doFetch c i s)"
  using assms by (rule inv_relead[where ph = "Fetching i (now s)"]) simp_all

lemma catchBlock_inv:
  assumes "admission cfg [] s" and "leading (phase s c)"
  shows "admission cfg [] (catchBlock cfg c i err s)"
proof -
  have sl: "admission cfg [] ((logEntry (Slept c d) (s\<lparr>drawn := drawn s + 1\<rparr>))\<lparr>phase :=
      (phase (logEntry (Slept c d) (s\<lparr>drawn := drawn s + 1\<rparr>)))(c := Sleeping i err)\<rparr>)" for d
    using assms by (rule inv_relead[where ph = "Sleeping i err"]) simp_all
  show ?thesis
    using assms sl by (simp add: catchBlock_def settle_inv Let_def split: option.splits)
qed

lemma fetchResolved_inv:
  assumes "admission cfg [] s" and "leading (phase s c)"
  shows "admission cfg [] (fetchResolved cfg c i start res s)"
proof -
  let ?s1 = "logEntry (OnFinish c (keyOf s c) (input (call s c)) (ok res) (status res) (now s - start)) s"
  have i1: "admission cfg [] ?s1" using assms(1) by (simp add: inv_fields[of ?s1 s])
  have l1: "leading (phase ?s1 c)" using assms(2) by simp
  have "admission cfg [] (?s1\<lparr>phase := (phase ?s1)(c := Parsing i)\<rparr>)"
    using i1 l1 by (rule inv_relead[where ph = "Parsing i"]) simp_all
  then show ?thesis
    using catchBlock_inv[OF i1 l1, of i "HttpError res"]
    by (cases "ok res") (simp_all add: fetchResolved_def Let_def)
qed

lemma enqueue_inv:
  assumes "admission cfg [] s" and "phase s c = Created" and "c < ncalls s"
  shows "admission cfg [] (enqueue cfg c s)"
proof -
  from assms(1) have f: "fresh_ok s" and n: "count_ok s" and q: "queue_ok s" and r: "subs_ok s"
    and cp: "cap_ok cfg s" by (simp_all add: admission_def)
  have nq: "c \<notin> set (queue s)" using q assms(2) by (auto simp: queue_ok_def)
  have nr: "c \<notin> set (reactions s l)" for l using r assms(2) by (auto simp: subs_ok_def)
  show ?thesis
  proof (cases "capacity cfg = 0 \<or> inFlight s < capacity cfg")
    case True
    then show ?thesis using run_inv[OF assms(1) _ nq assms(3)] assms(2) by (simp add: enqueue_def)
  next
    case False
    show ?thesis
    proof (cases "strategy cfg = Drop")
      case True
      let ?s1 = "settlePromise c (Rejected DroppedError) (logEntry (OnDrop c (keyOf s c)) s)"
      have "admission cfg [] (?s1\<lparr>phase := (phase ?s1)(c := Dropped)\<rparr>)"
        using assms(1) _ _ _ _ _ _ nq nr _ assms(3)
      proof (rule inv_phase_change[where ph = Dropped])
        show "capacity cfg \<noteq> 0 \<longrightarrow> inFlight (?s1\<lparr>phase := (phase ?s1)(c := Dropped)\<rparr>) \<le> capacity cfg"
          using cp by (simp add: cap_ok_def)
      qed (simp_all add: assms(2))
      then show ?thesis using False True by (simp add: enqueue_def Let_def)
    next
      case nd: False
      let ?s1 = "logEntry (OnEnqueue c (keyOf s c)) s"
      let ?s = "?s1\<lparr>queue := queue ?s1 @ [c], phase := (phase ?s1)(c := Queued)\<rparr>"
      have other: "phase ?s c' = phase s c'" if "c' \<noteq> c" for c' using that by simp
      have "admission cfg [] ?s"
        unfolding admission_def
      proof (intro conjI)
        show "fresh_ok ?s" using f assms(3) by (auto simp: fresh_ok_def)
        have "int (busy ?s) = int (busy s)"
          using busy_phase_upd[OF f, of ?s c Queued] assms(2) by simp
        then show "count_ok ?s" using n by (simp add: count_ok_def)
        show "cap_ok cfg ?s" using cp by (simp add: cap_ok_def)
        show "queue_ok ?s" using q nq by (auto simp: queue_ok_def)
        show "subs_ok ?s" using r nr _ other by (rule subs_ok_same) simp
        show "pend_ok [] ?s" by (simp add: pend_ok_def)
      qed
      then show ?thesis using False nd by (simp add: enqueue_def Let_def)
    qed
  qed
qed

lemma request_inv:
  assumes "admission cfg [] s"
  shows "admission cfg [] (request cfg url opts s)"
proof -
  obtain S outer where co: "combineSignals [signal opts, Some (length (signals s))] (signals s @ [freshSignal]) = (S, outer)"
    by (cases "combineSignals [signal opts, Some (length (signals s))] (signals s @ [freshSignal])")
  let ?c = "ncalls s"
  let ?ms = "case timeoutMs opts of None \<Rightarrow> defaultTimeoutMs cfg | Some m \<Rightarrow> Some m"
  let ?s = "s\<lparr>ncalls := Suc ?c,
              call := (call s)(?c := \<lparr>input = url, options = opts, timeoutController = length (signals s),
                                     outerController = outer\<rparr>),
              phase := (phase s)(?c := Created),
              timeoutId := (timeoutId s)(?c := (case ?ms of None \<Rightarrow> False | Some m \<Rightarrow> 0 < m)),
              signals := S\<rparr>"
  from assms(1) have f: "fresh_ok s" and n: "count_ok s" and q: "queue_ok s" and r: "subs_ok s"
    and cp: "cap_ok cfg s" by (simp_all add: admission_def)
  have ub: "phase s ?c = Unborn" using f by (simp add: fresh_ok_def)
  have nq: "?c \<notin> set (queue s)" using q ub by (auto simp: queue_ok_def)
  have nr: "?c \<notin> set (reactions s l)" for l using r ub by (auto simp: subs_ok_def)
  have other: "phase ?s c' = phase s c'" if "c' \<noteq> ?c" for c' using that by simp
  have "admission cfg [] ?s"
    unfolding admission_def
  proof (intro conjI)
    show "fresh_ok ?s" using f by (auto simp: fresh_ok_def)
    have "int (busy ?s) = int (busy s)"
      using busy_phase_upd[OF f, of ?s ?c Created] ub by simp
    then show "count_ok ?s" using n by (simp add: count_ok_def)
    show "cap_ok cfg ?s" using cp by (simp add: cap_ok_def)
    show "queue_ok ?s" using q nq by (auto simp: queue_ok_def)
    show "subs_ok ?s" using r nr _ other by (rule subs_ok_same) simp
    show "pend_ok [] ?s" by (simp add: pend_ok_def)
  qed
  then have "admission cfg [] (enqueue cfg ?c ?s)" by (rule enqueue_inv) simp_all
  then show ?thesis using co by (simp add: request_def Let_def)
qed

lemma step_inv:
  assumes "admission cfg [] s"
  shows "admission cfg [] (step cfg s e)"
proof (cases e)
  case (Request url opts)
  then show ?thesis using assms by (simp add: request_inv)
next
  case (FetchResolved c res)
  then show ?thesis using assms by (simp add: fetchResolved_inv split: phase.splits)
next
  case (FetchRejected c err)
  then show ?thesis using assms by (simp add: catchBlock_inv split: phase.splits)
next
  case (ParseDone c r)
  then show ?thesis using assms by (simp add: catchBlock_inv settle_inv split: phase.splits sum.splits)
next
  case (SleepDone c)
  then show ?thesis using assms
    by (auto simp add: loopHead_def doFetch_inv settle_inv split: phase.splits sum.splits if_splits)
next
  case (Reactions c)
  then show ?thesis using assms by (simp add: settle_inv split: phase.splits)
next
  case (TimerFired c)
  then show ?thesis using assms
    by (simp add: inv_fields[of "s\<lparr>timeoutId := a, signals := b\<rparr>" s for a b])
next
  case (Cancel c)
  then show ?thesis using assms by (simp add: inv_fields[of "s\<lparr>signals := b\<rparr>" s for b])
next
  case NewController
  then show ?thesis using assms by (simp add: inv_fields[of "s\<lparr>signals := b, userSignals := a\<rparr>" s for a b])
next
  case (UserAbort g r)
  then show ?thesis using assms by (simp add: inv_fields[of "s\<lparr>signals := b\<rparr>" s for b])
next
  case (Tick d)
  then show ?thesis using assms by (simp add: inv_fields[of "s\<lparr>now := b\<rparr>" s for b])
qed

lemma capacity_nonneg: "0 \<le> capacity cfg"
  by (simp add: capacity_def)

lemma init_inv: "admission cfg [] (init rnd)"
  by (simp add: admission_def init_def fresh_ok_def count_ok_def busy_def cap_ok_def queue_ok_def subs_ok_def
      pend_ok_def capacity_nonneg)

lemma steps_inv: "admission cfg [] s \<Longrightarrow> admission cfg [] (steps cfg s evs)"
  unfolding steps_def by (induction evs arbitrary: s) (simp_all add: step_inv)


section \<open>The registry invariant and the frame of a step\<close>



lemma keyed_supersede [simp]: "keyed (supersede c s) = keyed s"
  by (rule keyed_cong) simp







































































section \<open>Readings of the trace\<close>

lemma map_filter_append: "List.map_filter f (xs @ ys) = List.map_filter f xs @ List.map_filter f ys"
  by (simp add: List.map_filter_def)

lemma rans_logEntry [simp]:
  "rans (logEntry e s) = rans s @ (case e of Ran c \<Rightarrow> [c] | _ \<Rightarrow> [])"
  by (simp add: rans_def map_filter_append split: entry.splits)

lemma transports_logEntry [simp]:
  "transports (logEntry e s) = transports s @ (case e of Transport c g \<Rightarrow> [c] | _ \<Rightarrow> [])"
  by (simp add: transports_def map_filter_append split: entry.splits)

lemma rans_cong: "trace s' = trace s \<Longrightarrow> rans s' = rans s"
  by (simp add: rans_def)

lemma transports_cong: "trace s' = trace s \<Longrightarrow> transports s' = transports s"
  by (simp add: transports_def)

lemma trace_launch:
  "trace (launch cfg c s) = trace s \<or>
   trace (launch cfg c s) = trace s @ [OnStart c (keyOf s c) (input (call s c)), Transport c (effective (launch cfg c s) c)]"
  by (simp add: launch_def loopHead_def doFetch_def logEntry_def keyOf_def Let_def
      split: option.splits sum.splits prod.splits)

lemma rans_launch [simp]: "rans (launch cfg c s) = rans s"
  using trace_launch[of cfg c s]
  by (auto simp add: rans_def map_filter_append)

lemma rans_run [simp]: "rans (run cfg c s) = rans s @ [c]"
  by (simp add: run_def Let_def rans_cong[of "supersede c s'" s' for s'] rans_cong[of "follow c a s'" s' for a s']
      rans_cong[of "s\<lparr>inFlight := x\<rparr>" s for x] split: option.splits)

lemma dequeue_one:
  "(dequeue cfg s = s) \<or>
   (\<exists>t \<in> set (queue s). rans (dequeue cfg s) = rans s @ [t] \<and>
      length (queue (dequeue cfg s)) + 1 = length (queue s) \<and> inFlight (dequeue cfg s) = inFlight s + 1)"
  by (cases "queue s = []")
     (simp_all add: dequeue_def rans_cong[of "s\<lparr>queue := x\<rparr>" s for x])

lemma executingNow_le_busy:
  assumes "fresh_ok s"
  shows "executingNow s \<le> busy s"
proof -
  have "executingNow s = card {c. c < ncalls s \<and> leading (phase s c)}"
    unfolding executingNow_def
    by (simp add: distinct_length_filter Collect_conj_eq Int_commute lessThan_def[symmetric] atLeast0LessThan)
  also have "\<dots> \<le> card {c. active (phase s c)}"
    by (rule card_mono[OF finite_active[OF assms]]) (auto simp: leading_active)
  finally show ?thesis by (simp add: busy_def)
qed

section \<open>The claims\<close>




text \<open>
  Claim C5. In every state a client of capacity \<open>C > 0\<close> reaches, the in-flight counter is
  between 0 and \<open>C\<close> and at most \<open>C\<close> calls run their retry loop. A call submitted while the
  counter equals \<open>C\<close> enters no \<^verbatim>\<open>task.run\<close> and starts no transport call: it is dropped
  under the strategy \<^verbatim>\<open>drop\<close> and queued otherwise. One call of \<^verbatim>\<open>dequeue\<close> takes at most
  one task from the queue and runs at most one.
\<close>

theorem capacity_respected:
  assumes "0 < capacity cfg" and "s = steps cfg (init rnd) evs"
  shows "0 \<le> inFlight s \<and> inFlight s \<le> capacity cfg \<and> int (executingNow s) \<le> capacity cfg
       \<and> (inFlight s = capacity cfg \<longrightarrow>
            rans (step cfg s (Request url opts)) = rans s \<and>
            transports (step cfg s (Request url opts)) = transports s \<and>
            inFlight (step cfg s (Request url opts)) = inFlight s \<and>
            phase (step cfg s (Request url opts)) (ncalls s) = (if strategy cfg = Drop then Dropped else Queued))
       \<and> length (rans (dequeue cfg s)) \<le> length (rans s) + 1
       \<and> length (queue s) \<le> length (queue (dequeue cfg s)) + 1"
proof -
  have i: "admission cfg [] s" unfolding assms(2) by (rule steps_inv[OF init_inv])
  then have f: "fresh_ok s" and n: "count_ok s" and c: "cap_ok cfg s" by (simp_all add: admission_def)
  have 1: "0 \<le> inFlight s" using n by (simp add: count_ok_def)
  have 2: "inFlight s \<le> capacity cfg" using c assms(1) by (simp add: cap_ok_def)
  have 3: "int (executingNow s) \<le> capacity cfg"
    using executingNow_le_busy[OF f] n 2 by (simp add: count_ok_def)
  have 4: "rans (step cfg s (Request url opts)) = rans s \<and>
            transports (step cfg s (Request url opts)) = transports s \<and>
            inFlight (step cfg s (Request url opts)) = inFlight s \<and>
            phase (step cfg s (Request url opts)) (ncalls s) = (if strategy cfg = Drop then Dropped else Queued)"
    if "inFlight s = capacity cfg"
    using that assms(1)
    by (simp add: request_def enqueue_def Let_def rans_def transports_def logEntry_def settlePromise_def
        map_filter_append split: prod.splits)
  have 5: "length (rans (dequeue cfg s)) \<le> length (rans s) + 1
       \<and> length (queue s) \<le> length (queue (dequeue cfg s)) + 1"
    using dequeue_one[of cfg s] by auto
  from 1 2 3 4 5 show ?thesis by blast
qed

theorem capacity_respected_witness:
  "capacity cfgOne = 1 \<and>
   inFlight (steps cfgOne (init (\<lambda>n. 0)) [Request ''/a'' plain, Request ''/b'' plain]) = 1 \<and>
   executingNow (steps cfgOne (init (\<lambda>n. 0)) [Request ''/a'' plain, Request ''/b'' plain]) = 1 \<and>
   queue (steps cfgOne (init (\<lambda>n. 0)) [Request ''/a'' plain, Request ''/b'' plain]) = [1] \<and>
   phase (step cfgOne (steps cfgOne (init (\<lambda>n. 0)) [Request ''/a'' plain, Request ''/b'' plain])
            (Request ''/c'' plain)) 2 = Queued"
proof -
  have h: "0 < capacity cfgOne" by (simp add: cfgOne_def capacity_def)
  have e: "inFlight (steps cfgOne (init (\<lambda>n. 0)) [Request ''/a'' plain, Request ''/b'' plain]) = capacity cfgOne"
    by (simp add: client_defs cfgOne_def plain_def)
  have n: "ncalls (steps cfgOne (init (\<lambda>n. 0)) [Request ''/a'' plain, Request ''/b'' plain]) = 2"
    by (simp add: client_defs cfgOne_def plain_def)
  have x: "executingNow (steps cfgOne (init (\<lambda>n. 0)) [Request ''/a'' plain, Request ''/b'' plain]) = 1"
    unfolding executingNow_def n by (simp add: client_defs cfgOne_def plain_def upt_rec)
  have q: "queue (steps cfgOne (init (\<lambda>n. 0)) [Request ''/a'' plain, Request ''/b'' plain]) = [1]"
    by (simp add: client_defs cfgOne_def plain_def)
  from capacity_respected[OF h refl, of "\<lambda>n. 0" "[Request ''/a'' plain, Request ''/b'' plain]" "''/c''" plain]
  show ?thesis using e n x q by (simp add: cfgOne_def capacity_def strategy_def)
qed






lemma rans_retireLeader [simp]: "rans (retireLeader c s) = rans s"
  by (rule rans_cong) (simp add: retireLeader_def)

lemma rans_retireFollower [simp]: "rans (retireFollower c s) = rans s"
  by (rule rans_cong) (simp add: retireFollower_def)

lemma rans_announce [simp]: "rans (announce c out s) = rans s"
proof -
  have "trace (announce c out s) = trace s \<or> (\<exists>e k. trace (announce c out s) = trace s @ [OnError c e k])"
    by (cases out) (simp_all add: announce_def Let_def)
  then show ?thesis by (auto simp: rans_def map_filter_append)
qed







lemma enqueued_logEntry [simp]:
  "enqueued (logEntry e s) = enqueued s @ (case e of OnEnqueue c k \<Rightarrow> [c] | _ \<Rightarrow> [])"
  by (simp add: enqueued_def map_filter_append split: entry.splits)

lemma enqueued_cong: "trace s' = trace s \<Longrightarrow> enqueued s' = enqueued s"
  by (simp add: enqueued_def)

lemma enqueued_launch [simp]: "enqueued (launch cfg c s) = enqueued s"
  using trace_launch[of cfg c s]
  by (auto simp add: enqueued_def map_filter_append)

lemma enqueued_run [simp]: "enqueued (run cfg c s) = enqueued s"
  by (simp add: run_def Let_def enqueued_cong[of "supersede c s'" s' for s']
      enqueued_cong[of "follow c a s'" s' for a s']
      enqueued_cong[of "s\<lparr>inFlight := x\<rparr>" s for x] split: option.splits)

lemma ordered_cong:
  assumes "queue s' = queue s" "ncalls s' = ncalls s" "rans s' = rans s" "enqueued s' = enqueued s"
  shows "ordered cfg s' = ordered cfg s"
  using assms by (simp add: ordered_def)

lemma filter_neq_hd: "distinct q \<Longrightarrow> q \<noteq> [] \<Longrightarrow> filter (\<lambda>c. c \<noteq> hd q) q = tl q"
  by (cases q) (auto simp: filter_id_conv)

lemma filter_neq_last: "distinct q \<Longrightarrow> q \<noteq> [] \<Longrightarrow> filter (\<lambda>c. c \<noteq> last q) q = butlast q"
proof (induction q rule: rev_induct)
  case Nil
  then show ?case by simp
next
  case (snoc x xs)
  then show ?case by (auto simp: filter_id_conv)
qed

lemma filter_notin_snoc:
  "filter (\<lambda>c. c \<notin> set (xs @ [t])) ys = filter (\<lambda>c. c \<noteq> t) (filter (\<lambda>c. c \<notin> set xs) ys)"
  by (induction ys) auto

lemma orderedI:
  assumes "distinct (enqueued s)" and "queue s = filter (\<lambda>c. c \<notin> set (rans s)) (enqueued s)"
    and "\<And>c. c \<in> set (rans s) \<Longrightarrow> c < ncalls s" and "\<And>c. c \<in> set (enqueued s) \<Longrightarrow> c < ncalls s"
    and "strategy cfg \<noteq> Lifo \<Longrightarrow> enqueued s = filter (\<lambda>c. c \<in> set (enqueued s)) (rans s) @ queue s"
  shows "ordered cfg s"
  unfolding ordered_def using assms by blast

lemma orderedD:
  assumes "ordered cfg s"
  shows "distinct (enqueued s)" and "queue s = filter (\<lambda>c. c \<notin> set (rans s)) (enqueued s)"
    and "\<And>c. c \<in> set (rans s) \<Longrightarrow> c < ncalls s" and "\<And>c. c \<in> set (enqueued s) \<Longrightarrow> c < ncalls s"
    and "strategy cfg \<noteq> Lifo \<Longrightarrow> enqueued s = filter (\<lambda>c. c \<in> set (enqueued s)) (rans s) @ queue s"
  using assms unfolding ordered_def by blast+

lemma dequeue_ordered:
  assumes "ordered cfg s"
  shows "ordered cfg (dequeue cfg s)"
proof (cases "(capacity cfg \<noteq> 0 \<and> capacity cfg \<le> inFlight s) \<or> queue s = []")
  case True
  then have "dequeue cfg s = s" by (auto simp: dequeue_def)
  then show ?thesis using assms by simp
next
  case False
  then have ne: "queue s \<noteq> []" and room: "capacity cfg = 0 \<or> inFlight s < capacity cfg" by auto
  note o = orderedD[OF assms]
  have dq: "distinct (queue s)" unfolding o(2) using o(1) by simp
  have sub: "set (queue s) \<subseteq> set (enqueued s)" unfolding o(2) by auto
  show ?thesis
  proof (cases "strategy cfg = Lifo")
    case True
    let ?t = "last (queue s)"
    let ?s = "run cfg ?t (s\<lparr>queue := butlast (queue s)\<rparr>)"
    have eq: "dequeue cfg s = ?s" using ne room True by (auto simp: dequeue_def)
    have tin: "?t \<in> set (enqueued s)" using ne sub by auto
    have r: "rans ?s = rans s @ [?t]" by (simp add: rans_cong[of "s\<lparr>queue := x\<rparr>" s for x])
    have e: "enqueued ?s = enqueued s" by (simp add: enqueued_cong[of "s\<lparr>queue := x\<rparr>" s for x])
    have qs: "queue ?s = butlast (queue s)" by simp
    have n: "ncalls ?s = ncalls s" by simp
    show ?thesis
      unfolding eq
    proof (rule orderedI)
      show "distinct (enqueued ?s)" unfolding e by (rule o(1))
      show "queue ?s = filter (\<lambda>c. c \<notin> set (rans ?s)) (enqueued ?s)"
        unfolding r e qs filter_notin_snoc o(2)[symmetric] using filter_neq_last[OF dq ne] by simp
      show "c < ncalls ?s" if "c \<in> set (rans ?s)" for c
        using that o(3)[of c] o(4)[OF tin] unfolding r n by auto
      show "c < ncalls ?s" if "c \<in> set (enqueued ?s)" for c
        using that o(4)[of c] unfolding e n by simp
    qed (use True in simp)
  next
    case nl: False
    let ?t = "hd (queue s)"
    let ?s = "run cfg ?t (s\<lparr>queue := tl (queue s)\<rparr>)"
    have eq: "dequeue cfg s = ?s" using ne room nl by (auto simp: dequeue_def)
    have tin: "?t \<in> set (enqueued s)" using ne sub by auto
    have r: "rans ?s = rans s @ [?t]" by (simp add: rans_cong[of "s\<lparr>queue := x\<rparr>" s for x])
    have e: "enqueued ?s = enqueued s" by (simp add: enqueued_cong[of "s\<lparr>queue := x\<rparr>" s for x])
    have qs: "queue ?s = tl (queue s)" by simp
    have n: "ncalls ?s = ncalls s" by simp
    show ?thesis
      unfolding eq
    proof (rule orderedI)
      show "distinct (enqueued ?s)" unfolding e by (rule o(1))
      show "queue ?s = filter (\<lambda>c. c \<notin> set (rans ?s)) (enqueued ?s)"
        unfolding r e qs filter_notin_snoc o(2)[symmetric] using filter_neq_hd[OF dq ne] by simp
      show "c < ncalls ?s" if "c \<in> set (rans ?s)" for c
        using that o(3)[of c] o(4)[OF tin] unfolding r n by auto
      show "c < ncalls ?s" if "c \<in> set (enqueued ?s)" for c
        using that o(4)[of c] unfolding e n by simp
      have "enqueued s = filter (\<lambda>c. c \<in> set (enqueued s)) (rans s) @ (?t # tl (queue s))"
        using o(5)[OF nl] ne by simp
      then show "enqueued ?s = filter (\<lambda>c. c \<in> set (enqueued ?s)) (rans ?s) @ queue ?s"
        unfolding r e qs using tin by simp
    qed
  qed
qed

lemma run_ordered:
  assumes "ordered cfg s" and "c \<notin> set (enqueued s)" and "c < ncalls s"
  shows "ordered cfg (run cfg c s)"
proof (rule orderedI)
  note o = orderedD[OF assms(1)]
  let ?s = "run cfg c s"
  have f1: "filter (\<lambda>x. x \<notin> set (rans s @ [c])) (enqueued s) = filter (\<lambda>x. x \<notin> set (rans s)) (enqueued s)"
    using assms(2) by (auto intro: filter_cong)
  show "distinct (enqueued ?s)" using o(1) by simp
  show "queue ?s = filter (\<lambda>c. c \<notin> set (rans ?s)) (enqueued ?s)"
    using o(2) f1 by simp
  show "x < ncalls ?s" if "x \<in> set (rans ?s)" for x using that o(3)[of x] assms(3) by auto
  show "x < ncalls ?s" if "x \<in> set (enqueued ?s)" for x using that o(4)[of x] by simp
  show "enqueued ?s = filter (\<lambda>c. c \<in> set (enqueued ?s)) (rans ?s) @ queue ?s" if "strategy cfg \<noteq> Lifo"
    using o(5)[OF that] assms(2) by simp
qed

lemma enqueue_ordered:
  assumes "ordered cfg s" and "c \<notin> set (enqueued s)" and "c \<notin> set (rans s)" and "c < ncalls s"
  shows "ordered cfg (enqueue cfg c s)"
proof (cases "capacity cfg = 0 \<or> inFlight s < capacity cfg")
  case True
  then show ?thesis using run_ordered[OF assms(1,2,4)] by (simp add: enqueue_def)
next
  case False
  note o = orderedD[OF assms(1)]
  show ?thesis
  proof (cases "strategy cfg = Drop")
    case True
    let ?s = "(settlePromise c (Rejected DroppedError) (logEntry (OnDrop c (keyOf s c)) s))\<lparr>phase :=
           (phase (settlePromise c (Rejected DroppedError) (logEntry (OnDrop c (keyOf s c)) s)))(c := Dropped)\<rparr>"
    have eq: "enqueue cfg c s = ?s" using False True by (simp add: enqueue_def Let_def)
    have "rans ?s = rans s" "enqueued ?s = enqueued s" "queue ?s = queue s" "ncalls ?s = ncalls s"
      by (simp_all add: rans_def enqueued_def logEntry_def map_filter_append)
    then have "ordered cfg ?s = ordered cfg s" by (intro ordered_cong)
    then show ?thesis unfolding eq using assms(1) by simp
  next
    case nd: False
    let ?s = "(logEntry (OnEnqueue c (keyOf s c)) s)\<lparr>queue := queue s @ [c], phase := (phase s)(c := Queued)\<rparr>"
    have eq: "enqueue cfg c s = ?s" using False nd by (simp add: enqueue_def Let_def)
    have r: "rans ?s = rans s" and e: "enqueued ?s = enqueued s @ [c]"
      and qs: "queue ?s = queue s @ [c]" and n: "ncalls ?s = ncalls s"
      by (simp_all add: rans_def enqueued_def logEntry_def map_filter_append)
    have f2: "filter (\<lambda>x. x \<in> set (enqueued s @ [c])) (rans s) = filter (\<lambda>x. x \<in> set (enqueued s)) (rans s)"
      using assms(3) by (auto intro: filter_cong)
    show ?thesis
      unfolding eq
    proof (rule orderedI)
      show "distinct (enqueued ?s)" unfolding e using o(1) assms(2) by simp
      show "queue ?s = filter (\<lambda>c. c \<notin> set (rans ?s)) (enqueued ?s)"
        unfolding r e qs using o(2) assms(3) by simp
      show "x < ncalls ?s" if "x \<in> set (rans ?s)" for x using that o(3)[of x] unfolding r n by simp
      show "x < ncalls ?s" if "x \<in> set (enqueued ?s)" for x
        using that o(4)[of x] assms(4) unfolding e n by auto
      show "enqueued ?s = filter (\<lambda>c. c \<in> set (enqueued ?s)) (rans ?s) @ queue ?s" if "strategy cfg \<noteq> Lifo"
        unfolding r e qs f2 using o(5)[OF that] by simp
    qed
  qed
qed


lemma enqueued_announce [simp]: "enqueued (announce c out s) = enqueued s"
proof -
  have "trace (announce c out s) = trace s \<or> (\<exists>e k. trace (announce c out s) = trace s @ [OnError c e k])"
    by (cases out) (simp_all add: announce_def Let_def)
  then show ?thesis by (auto simp: enqueued_def map_filter_append)
qed

lemma ordered_same:
  assumes "ordered cfg s" and "queue s' = queue s" "ncalls s' = ncalls s" "trace s' = trace s"
  shows "ordered cfg s'"
proof -
  have r: "rans s' = rans s" by (simp add: rans_def assms(4))
  have e: "enqueued s' = enqueued s" by (simp add: enqueued_def assms(4))
  show ?thesis using ordered_cong[OF assms(2,3) r e] assms(1) by simp
qed

lemma map_filter_none:
  "(\<And>e. e \<in> set es \<Longrightarrow> f e = None) \<Longrightarrow> List.map_filter f es = []"
  by (induction es) (simp_all add: List.map_filter_simps)

lemma ordered_logged:
  assumes "ordered cfg s" and "queue s' = queue s" "ncalls s' = ncalls s" "trace s' = trace s @ es"
    and "\<And>e. e \<in> set es \<Longrightarrow> (case e of Ran c \<Rightarrow> False | OnEnqueue c k \<Rightarrow> False | _ \<Rightarrow> True)"
  shows "ordered cfg s'"
proof -
  have q: "(case e of Ran c \<Rightarrow> Some c | _ \<Rightarrow> None) = None
      \<and> (case e of OnEnqueue c k \<Rightarrow> Some c | _ \<Rightarrow> None) = None" if "e \<in> set es" for e
    using assms(5)[OF that] by (cases e) simp_all
  have "List.map_filter (\<lambda>e. case e of Ran c \<Rightarrow> Some c | _ \<Rightarrow> None) es = []"
    by (rule map_filter_none) (simp add: q)
  then have r: "rans s' = rans s" by (simp add: rans_def assms(4) map_filter_append)
  have "List.map_filter (\<lambda>e. case e of OnEnqueue c k \<Rightarrow> Some c | _ \<Rightarrow> None) es = []"
    by (rule map_filter_none) (simp add: q)
  then have e: "enqueued s' = enqueued s" by (simp add: enqueued_def assms(4) map_filter_append)
  show ?thesis using ordered_cong[OF assms(2,3) r e] assms(1) by simp
qed

lemma retireLeader_ordered: "ordered cfg s \<Longrightarrow> ordered cfg (retireLeader c s)"
  by (erule ordered_same) (simp_all add: retireLeader_def)

lemma retireFollower_ordered: "ordered cfg s \<Longrightarrow> ordered cfg (retireFollower c s)"
  by (erule ordered_same) (simp_all add: retireFollower_def)

lemma finalizeLeader_ordered: "ordered cfg s \<Longrightarrow> ordered cfg (finalizeLeader cfg c s)"
  unfolding finalizeLeader_alt by (intro dequeue_ordered retireLeader_ordered)

lemma finalizeFollower_ordered: "ordered cfg s \<Longrightarrow> ordered cfg (finalizeFollower cfg f s)"
  unfolding finalizeFollower_alt by (intro dequeue_ordered retireFollower_ordered)

lemma fold_finalizeFollower_ordered:
  "ordered cfg s \<Longrightarrow> ordered cfg (fold (finalizeFollower cfg) fs s)"
  by (induction fs arbitrary: s) (simp_all add: finalizeFollower_ordered)

lemma trace_announce:
  "trace (announce c out s) = trace s @ (case out of Resolved v \<Rightarrow> [] | Rejected e \<Rightarrow> [OnError c e (keyOf s c)])"
  by (cases out) (simp_all add: announce_def Let_def)

lemma announce_ordered: "ordered cfg s \<Longrightarrow> ordered cfg (announce c out s)"
  by (erule ordered_logged[where es = "case out of Resolved v \<Rightarrow> [] | Rejected e \<Rightarrow> [OnError c e (keyOf s c)]"])
     (auto simp: trace_announce split: outcome.splits)

lemma settle_ordered: "ordered cfg s \<Longrightarrow> ordered cfg (settle cfg c out s)"
  unfolding settle_alt
  by (intro fold_finalizeFollower_ordered finalizeLeader_ordered announce_ordered)

lemma doFetch_ordered: "ordered cfg s \<Longrightarrow> ordered cfg (doFetch c i s)"
  by (erule ordered_logged[where es = "[OnStart c (keyOf s c) (input (call s c)), Transport c (effective s c)]"])
     (auto simp: doFetch_def Let_def logEntry_def)

lemma catchBlock_ordered:
  assumes "ordered cfg s"
  shows "ordered cfg (catchBlock cfg c i err s)"
proof -
  have "ordered cfg ((logEntry (Slept c d) (s\<lparr>drawn := drawn s + 1\<rparr>))\<lparr>phase :=
      (phase (logEntry (Slept c d) (s\<lparr>drawn := drawn s + 1\<rparr>)))(c := Sleeping i err)\<rparr>)" for d
    using assms by (rule ordered_logged[where es = "[Slept c d]"]) (auto simp: logEntry_def)
  then show ?thesis
    using assms by (simp add: catchBlock_def settle_ordered Let_def split: option.splits)
qed

lemma fetchResolved_ordered:
  assumes "ordered cfg s"
  shows "ordered cfg (fetchResolved cfg c i start res s)"
proof -
  let ?e = "OnFinish c (keyOf s c) (input (call s c)) (ok res) (status res) (now s - start)"
  let ?s1 = "logEntry ?e s"
  have o1: "ordered cfg ?s1"
    using assms by (rule ordered_logged[where es = "[?e]"]) (auto simp: logEntry_def)
  have "ordered cfg (?s1\<lparr>phase := (phase ?s1)(c := Parsing i)\<rparr>)"
    using o1 by (rule ordered_same) simp_all
  then show ?thesis
    using catchBlock_ordered[OF o1, of c i "HttpError res"]
    by (cases "ok res") (simp_all add: fetchResolved_def Let_def)
qed

lemma request_ordered:
  assumes "ordered cfg s"
  shows "ordered cfg (request cfg url opts s)"
proof -
  obtain S outer where co: "combineSignals [signal opts, Some (length (signals s))] (signals s @ [freshSignal]) = (S, outer)"
    by (cases "combineSignals [signal opts, Some (length (signals s))] (signals s @ [freshSignal])")
  let ?c = "ncalls s"
  let ?ms = "case timeoutMs opts of None \<Rightarrow> defaultTimeoutMs cfg | Some m \<Rightarrow> Some m"
  let ?s = "s\<lparr>ncalls := Suc ?c,
              call := (call s)(?c := \<lparr>input = url, options = opts, timeoutController = length (signals s),
                                     outerController = outer\<rparr>),
              phase := (phase s)(?c := Created),
              timeoutId := (timeoutId s)(?c := (case ?ms of None \<Rightarrow> False | Some m \<Rightarrow> 0 < m)),
              signals := S\<rparr>"
  note o = orderedD[OF assms]
  have r: "rans ?s = rans s" and e: "enqueued ?s = enqueued s"
    by (simp_all add: rans_def enqueued_def)
  have "ordered cfg ?s"
  proof (rule orderedI)
    show "distinct (enqueued ?s)" unfolding e by (rule o(1))
    show "queue ?s = filter (\<lambda>c. c \<notin> set (rans ?s)) (enqueued ?s)" unfolding r e using o(2) by simp
    show "x < ncalls ?s" if "x \<in> set (rans ?s)" for x using that o(3)[of x] unfolding r by simp
    show "x < ncalls ?s" if "x \<in> set (enqueued ?s)" for x using that o(4)[of x] unfolding e by simp
    show "enqueued ?s = filter (\<lambda>c. c \<in> set (enqueued ?s)) (rans ?s) @ queue ?s" if "strategy cfg \<noteq> Lifo"
      unfolding r e using o(5)[OF that] by simp
  qed
  moreover have "?c \<notin> set (enqueued ?s)" "?c \<notin> set (rans ?s)"
    unfolding r e using o(3)[of ?c] o(4)[of ?c] by auto
  ultimately have "ordered cfg (enqueue cfg ?c ?s)" by (rule enqueue_ordered) simp
  then show ?thesis using co by (simp add: request_def Let_def)
qed

lemma step_ordered:
  assumes "ordered cfg s"
  shows "ordered cfg (step cfg s e)"
proof (cases e)
  case (Request url opts)
  then show ?thesis using assms by (simp add: request_ordered)
next
  case (FetchResolved c res)
  then show ?thesis using assms by (simp add: fetchResolved_ordered split: phase.splits)
next
  case (FetchRejected c err)
  then show ?thesis using assms by (simp add: catchBlock_ordered split: phase.splits)
next
  case (ParseDone c r)
  then show ?thesis using assms by (simp add: catchBlock_ordered settle_ordered split: phase.splits sum.splits)
next
  case (SleepDone c)
  then show ?thesis using assms
    by (auto simp add: loopHead_def doFetch_ordered settle_ordered split: phase.splits sum.splits if_splits)
next
  case (Reactions c)
  then show ?thesis using assms by (simp add: settle_ordered split: phase.splits)
next
  case (TimerFired c)
  then show ?thesis using assms
    by (auto intro: ordered_same)
next
  case (Cancel c)
  then show ?thesis using assms
    by (auto intro: ordered_same)
next
  case NewController
  then show ?thesis using assms
    by (auto intro: ordered_same)
next
  case (UserAbort g r)
  then show ?thesis using assms
    by (auto intro: ordered_same)
next
  case (Tick d)
  then show ?thesis using assms
    by (auto intro: ordered_same)
qed

lemma init_ordered: "ordered cfg (init rnd)"
  by (simp add: ordered_def init_def rans_def enqueued_def)

lemma steps_ordered: "ordered cfg s \<Longrightarrow> ordered cfg (steps cfg s evs)"
  unfolding steps_def by (induction evs arbitrary: s) (simp_all add: step_ordered)

text \<open>
  Claim C8. In every reachable state the wait queue lists the waiting calls in the order
  they were enqueued, and \<^verbatim>\<open>enqueue\<close> at capacity appends at the tail under both queueing
  strategies. When a release finds room and a non-empty queue it runs the head of the
  queue unless the strategy is \<^verbatim>\<open>lifo\<close>, so the queued calls start in exactly the
  order they were enqueued; under \<^verbatim>\<open>lifo\<close> it runs the last element of the queue, the call
  enqueued most recently.
\<close>

theorem release_order:
  assumes "s = steps cfg (init rnd) evs"
    and "queue u \<noteq> []" and "capacity cfg = 0 \<or> inFlight u < capacity cfg"
    and "capacity cfg \<noteq> 0" and "capacity cfg \<le> inFlight v" and "strategy cfg \<noteq> Drop"
  shows "queue s = filter (\<lambda>c. c \<notin> set (rans s)) (enqueued s)
       \<and> (strategy cfg \<noteq> Lifo \<longrightarrow>
            enqueued s = filter (\<lambda>c. c \<in> set (enqueued s)) (rans s) @ queue s)
       \<and> queue (enqueue cfg c v) = queue v @ [c] \<and> enqueued (enqueue cfg c v) = enqueued v @ [c]
       \<and> (strategy cfg \<noteq> Lifo \<longrightarrow>
            rans (dequeue cfg u) = rans u @ [hd (queue u)] \<and> queue (dequeue cfg u) = tl (queue u))
       \<and> (strategy cfg = Lifo \<longrightarrow>
            rans (dequeue cfg u) = rans u @ [last (queue u)] \<and> queue (dequeue cfg u) = butlast (queue u))"
proof -
  have o: "ordered cfg s" unfolding assms(1) by (rule steps_ordered[OF init_ordered])
  have 1: "queue (enqueue cfg c v) = queue v @ [c] \<and> enqueued (enqueue cfg c v) = enqueued v @ [c]"
    using assms(4,5,6) by (simp add: enqueue_def Let_def enqueued_def logEntry_def map_filter_append)
  have 2: "rans (dequeue cfg u) = rans u @ [hd (queue u)] \<and> queue (dequeue cfg u) = tl (queue u)"
    if "strategy cfg \<noteq> Lifo"
    using that assms(2,3) by (auto simp add: dequeue_def rans_cong[of "u\<lparr>queue := x\<rparr>" u for x])
  have 3: "rans (dequeue cfg u) = rans u @ [last (queue u)] \<and> queue (dequeue cfg u) = butlast (queue u)"
    if "strategy cfg = Lifo"
    using that assms(2,3) by (auto simp add: dequeue_def rans_cong[of "u\<lparr>queue := x\<rparr>" u for x])
  from orderedD(2)[OF o] orderedD(5)[OF o] 1 2 3 show ?thesis by blast
qed

theorem release_order_witness:
  "rans (steps cfgOne (init noRandom) (abcScript @ [FetchRejected 0 (AbortError Cancelled),
      FetchRejected 1 (AbortError Cancelled)])) = [0, 1, 2] \<and>
   rans (steps cfgLifo (init noRandom) (abcScript @ [FetchRejected 0 (AbortError Cancelled),
      FetchRejected 2 (AbortError Cancelled)])) = [0, 2, 1] \<and>
   queue (steps cfgLifo (init noRandom) abcScript) = [1, 2] \<and>
   enqueued (steps cfgLifo (init noRandom) abcScript) = [1, 2]"
proof -
  let ?u = "retireLeader 0 (steps cfgLifo (init noRandom) abcScript)"
  have q: "queue (steps cfgLifo (init noRandom) abcScript) = [1, 2]"
    and e: "enqueued (steps cfgLifo (init noRandom) abcScript) = [1, 2]"
    and r: "rans (steps cfgLifo (init noRandom) abcScript) = [0]"
    by (simp_all add: client_defs trace_defs abcScript_def cfgLifo_def plain_def)
  have a: "rans (steps cfgOne (init noRandom) (abcScript @ [FetchRejected 0 (AbortError Cancelled),
      FetchRejected 1 (AbortError Cancelled)])) = [0, 1, 2]"
    by (simp add: client_defs trace_defs abcScript_def cfgOne_def plain_def)
  have b: "rans (steps cfgLifo (init noRandom) (abcScript @ [FetchRejected 0 (AbortError Cancelled),
      FetchRejected 2 (AbortError Cancelled)])) = [0, 2, 1]"
    by (simp add: client_defs trace_defs abcScript_def cfgLifo_def plain_def)
  have h: "queue ?u \<noteq> []" "capacity cfgLifo = 0 \<or> inFlight ?u < capacity cfgLifo"
    "capacity cfgLifo \<noteq> 0" "capacity cfgLifo \<le> inFlight (steps cfgLifo (init noRandom) abcScript)"
    "strategy cfgLifo \<noteq> Drop"
    by (simp_all add: client_defs retireLeader_def abcScript_def cfgLifo_def plain_def)
  from release_order[OF refl h, of noRandom abcScript 3]
  show ?thesis using a b q e by simp
qed

lemma quiet_refl [simp]: "quiet s s"
  by (simp add: quiet_def)



lemma quiet_log: "\<not> isFinish e \<Longrightarrow> quiet s (logEntry e s)"
  by (simp add: quiet_def logEntry_def)































text \<open>
  Claim C1 at its failing input. No retry policy is configured (the client of
  \<^verbatim>\<open>app.svelte\<close>, a call without \<^verbatim>\<open>options.retry\<close>) and the only attempt fails with a
  status 404, or with a transport error: the \<^verbatim>\<open>catch\<close> block of \<^verbatim>\<open>runWithRetry\<close> evaluates
  \<^verbatim>\<open>p!.attempts\<close> on an undefined policy, and the promise rejects with that
  \<^verbatim>\<open>TypeError\<close>, not with the error of the attempt.
\<close>

theorem no_policy_rejects_with_type_error:
  "policyOf cfgPlain (steps cfgPlain (init noRandom) [Request ''/api'' plain]) 0 = None \<and>
   promise (steps cfgPlain (init noRandom) [Request ''/api'' plain, FetchResolved 0 (resp 404)]) 0
     = Some (Rejected NullDeref) \<and>
   promise (steps cfgPlain (init noRandom)
       [Request ''/api'' plain, FetchRejected 0 (NetworkError ''Failed to fetch'')]) 0
     = Some (Rejected NullDeref)"
  by (simp add: client_defs cfgPlain_def plain_def resp_def)

text \<open>
  Claim C2 at its failing input. Under a policy of three attempts with the default
  predicate, a response with status 404 is not final: the call goes to its backoff
  sleep with a pending promise and makes a second transport call. The call site passes
  no response to the predicate, which answers \<open>True\<close> for every error.
\<close>

theorem status_404_is_retried:
  "phase (steps cfgRetry3 (init noRandom) [Request ''/a'' plain, FetchResolved 0 (resp 404)]) 0
     = Sleeping 0 (HttpError (resp 404)) \<and>
   promise (steps cfgRetry3 (init noRandom) [Request ''/a'' plain, FetchResolved 0 (resp 404)]) 0 = None \<and>
   transports (steps cfgRetry3 (init noRandom)
       [Request ''/a'' plain, FetchResolved 0 (resp 404), SleepDone 0]) = [0, 0] \<and>
   shouldRetry retry3 None (Some (HttpError (resp 404))) \<and>
   \<not> defaultRetryOn (Some (resp 404)) None \<and> defaultRetryOn (Some (resp 503)) None"
  by (simp add: client_defs trace_defs cfgRetry3_def retry3_def plain_def resp_def)

text \<open>
  Claim C3 at its failing inputs. An input that fires with the reason \<open>Timeout\<close> after the
  composition aborts the derived controller, but with the default reason; and an input
  that had fired with the reason \<open>Cancelled\<close> before the composition gives a derived
  controller that is aborted with the default reason.
\<close>

theorem combineSignals_drops_reason:
  "(let (S, d) = combineSignals [Some 0, Some 1] [freshSignal, freshSignal];
        S' = runActions [Abort 1 (Some Timeout)] S
    in \<not> aborted (S ! d) \<and> aborted (S' ! d) \<and> sigReason (S' ! 1) = Some Timeout \<and>
       sigReason (S' ! d) = Some DefaultReason) \<and>
   (let S0 = runActions [Abort 0 (Some Cancelled)] [freshSignal];
        (S, d) = combineSignals [None, Some 0] S0
    in sigReason (S0 ! 0) = Some Cancelled \<and> aborted (S ! d) \<and> sigReason (S ! d) = Some DefaultReason)"
  by (simp add: combineSignals_def freshSignal_def addListener_def)

text \<open>
  Claim C4 at its failing input. Call 0 runs under the key \<^verbatim>\<open>search\<close>; call 1 supersedes
  it and installs its own record. When the aborted call 0 settles, its \<^verbatim>\<open>finally\<close>
  callback deletes the key: the registry holds no record while call 1 still awaits its
  transport, and a third call under the key with the dedupe flag makes a transport call
  of its own.
\<close>

theorem superseded_settlement_removes_new_record:
  "map_option resultPromise
     (inFlightByKey (steps cfgPlain (init noRandom) [Request ''/q1'' search, Request ''/q2'' search]) ''search'')
     = Some 1 \<and>
   inFlightByKey (steps cfgPlain (init noRandom)
       [Request ''/q1'' search, Request ''/q2'' search, FetchRejected 0 (AbortError Replaced)]) ''search'' = None \<and>
   phase (steps cfgPlain (init noRandom)
       [Request ''/q1'' search, Request ''/q2'' search, FetchRejected 0 (AbortError Replaced)]) 1 = Fetching 0 0 \<and>
   transports (steps cfgPlain (init noRandom)
       [Request ''/q1'' search, Request ''/q2'' search, FetchRejected 0 (AbortError Replaced),
        Request ''/q2'' searchDedupe]) = [0, 1, 2]"
  by (simp add: client_defs trace_defs cfgPlain_def search_def searchDedupe_def plain_def)

end
